theory Spec2Isabelle
  imports Complex_Main
begin

section \<open>Data model\<close>

text \<open>
  The tables of the two migrations, as far as the services read and write them.
  Identifiers are the \<open>BIGSERIAL\<close> keys, read by the services through \<open>Number(...)\<close>;
  instants (\<open>TIMESTAMPTZ\<close>, JavaScript \<open>Date\<close>) are milliseconds since the epoch;
  a JavaScript string is the list of its UTF-16 code units.
\<close>

type_synonym jsstring = "nat list"

definition asc :: "string \<Rightarrow> jsstring" where
  "asc s = map of_char s"

datatype EventType = PICKUP | UPDATE | MAINTENANCE | EVENT | CAMPAIGN

datatype Visibility = PUBLIC | NEED_REVIEW | HIDDEN

datatype Scope = GLOBAL | REGION

datatype Trigger = ON_START | ON_END | BEFORE_END | BEFORE_START | ON_PUBLISH

datatype Channel = WEBPUSH | EMAIL | DISCORD

datatype ScheduleStatus = PENDING | PROCESSING | SENT | FAILED | CANCELED

record EventRow =
  ev_id :: nat
  ev_region_id :: nat
  ev_type :: EventType
  ev_title :: jsstring
  ev_start_at_utc :: "int option"
  ev_end_at_utc :: "int option"
  ev_created_at :: "int option"
  ev_visibility :: Visibility
  ev_summary :: "jsstring option"
  ev_source_url :: jsstring
  ev_canonical_event_key :: jsstring
  ev_confidence :: rat
  ev_updated_at :: int

record RuleRow =
  rule_id :: nat
  rule_user_id :: nat
  rule_scope :: Scope
  rule_region_id :: "nat option"
  rule_event_type :: EventType
  rule_trigger :: Trigger
  rule_offset_minutes :: "nat option"
  rule_channel :: Channel
  rule_enabled :: bool

record UserGameRow =
  ug_user_id :: nat
  ug_region_id :: nat
  ug_enabled :: bool

record Payload =
  eventTitle :: jsstring
  eventType :: EventType
  trigger :: Trigger
  offsetMinutes :: nat
  channel :: Channel

record ScheduleRow =
  ns_id :: nat
  ns_user_id :: nat
  ns_event_id :: nat
  ns_channel :: Channel
  ns_trigger_type :: Trigger
  ns_trigger_offset_minutes :: nat
  ns_scheduled_at_utc :: int
  ns_status :: ScheduleStatus
  ns_payload_json :: Payload
  ns_dedupe_key :: jsstring
  ns_created_at :: int
  ns_updated_at :: int

text \<open>
  The delivery log. The result column holds \<open>SUCCESS\<close> or \<open>FAILED\<close>; the latter is
  written \<open>DELIVERY_FAILED\<close> here, \<open>FAILED\<close> being the schedule status. The response
  payload is \<open>{channel}\<close> or \<open>{channel, simulated: true, sentAt}\<close>.
\<close>

datatype DeliveryResult = SUCCESS | DELIVERY_FAILED

datatype ResponsePayload = ChannelOnly Channel | Simulated Channel int

record DeliveryRow =
  nd_schedule_id :: nat
  nd_sent_at_utc :: int
  nd_result :: DeliveryResult
  nd_error_message :: "jsstring option"
  nd_response_payload :: ResponsePayload

datatype RawStatus = NEW | PARSED | ERROR

text \<open>
  A fetched candidate and a stored raw notice. \<open>publishedAt\<close> is the instant its text
  denotes once cast to \<open>timestamptz\<close>; the raw payload is its JSON text.
\<close>

record RawCandidate =
  rc_url :: jsstring
  rc_title :: jsstring
  rc_publishedAt :: "int option"
  rc_contentText :: jsstring
  rc_rawPayload :: jsstring

record RawNoticeRow =
  rn_id :: nat
  rn_source_id :: nat
  rn_url :: jsstring
  rn_title :: jsstring
  rn_published_at :: "int option"
  rn_fetched_at :: int
  rn_content_text :: "jsstring option"
  rn_content_hash :: "jsstring option"
  rn_raw_payload :: "jsstring option"
  rn_parser_version :: jsstring
  rn_status :: RawStatus

text \<open>The columns of a source, joined with its region, that the fetch loop reads.\<close>

record SourceRow =
  src_id :: nat
  src_region_id :: nat
  src_region_timezone :: jsstring

record UserRow =
  us_id :: nat
  us_email :: "jsstring option"

record PushSubscriptionRow =
  ps_user_id :: nat
  ps_endpoint :: jsstring

text \<open>
  The store: one list of rows per table, and the sequences behind the ids the services
  read back.
\<close>

record db =
  events :: "EventRow list"
  notification_rules :: "RuleRow list"
  user_games :: "UserGameRow list"
  notification_schedules :: "ScheduleRow list"
  notification_schedules_id_seq :: nat
  notification_deliveries :: "DeliveryRow list"
  users :: "UserRow list"
  push_subscriptions :: "PushSubscriptionRow list"
  events_id_seq :: nat
  raw_notices :: "RawNoticeRow list"
  raw_notices_id_seq :: nat
  event_raw_links :: "(nat \<times> nat) list"

section \<open>Scheduling (scheduling.ts)\<close>

text \<open>
  \<open>toDate\<close>: a null column stays null; the driver hands over \<open>Date\<close> objects, and an
  invalid one is null as well, so a value that survives is its time in milliseconds.
\<close>

definition toDate :: "int option \<Rightarrow> int option" where
  "toDate v = (case v of None \<Rightarrow> None | Some t \<Rightarrow> Some t)"

text \<open>
  \<open>now\<close> is the clock reading of the call (\<open>Date.now()\<close>, \<open>new Date()\<close>, SQL \<open>NOW()\<close>):
  one planning call is taken to read a single instant.
\<close>

definition computeScheduledAt :: "int \<Rightarrow> RuleRow \<Rightarrow> EventRow \<Rightarrow> int option" where
  "computeScheduledAt now rule event =
     (let startAt = toDate (ev_start_at_utc event);
          endAt = toDate (ev_end_at_utc event);
          createdAt = (case toDate (ev_created_at event) of Some c \<Rightarrow> c | None \<Rightarrow> now);
          offsetMs = int (case rule_offset_minutes rule of Some n \<Rightarrow> n | None \<Rightarrow> 0) * 60 * 1000
      in case rule_trigger rule of
           ON_START \<Rightarrow> startAt
         | ON_END \<Rightarrow> endAt
         | BEFORE_END \<Rightarrow> (case endAt of Some e \<Rightarrow> Some (e - offsetMs) | None \<Rightarrow> None)
         | BEFORE_START \<Rightarrow> (case startAt of Some b \<Rightarrow> Some (b - offsetMs) | None \<Rightarrow> None)
         | ON_PUBLISH \<Rightarrow> Some createdAt)"

definition getEvent :: "db \<Rightarrow> nat \<Rightarrow> EventRow option" where
  "getEvent s eventId = find (\<lambda>e. ev_id e = eventId) (events s)"

text \<open>
  The optional \<open>userId\<close> is tested for truthiness in the source, so an id of 0 adds no
  clause.
\<close>

definition getEligibleRulesForEvent :: "db \<Rightarrow> EventRow \<Rightarrow> nat option \<Rightarrow> RuleRow list" where
  "getEligibleRulesForEvent s event userId =
     filter (\<lambda>r. rule_enabled r
                \<and> rule_event_type r = ev_type event
                \<and> (rule_scope r = GLOBAL
                     \<or> (rule_scope r = REGION \<and> rule_region_id r = Some (ev_region_id event)))
                \<and> (case userId of None \<Rightarrow> True | Some u \<Rightarrow> u = 0 \<or> rule_user_id r = u))
            (notification_rules s)"

definition getTargetUsersForRegion :: "db \<Rightarrow> nat \<Rightarrow> nat option \<Rightarrow> nat list" where
  "getTargetUsersForRegion s regionId userId =
     remdups (map ug_user_id
       (filter (\<lambda>g. ug_region_id g = regionId \<and> ug_enabled g
                    \<and> (case userId of None \<Rightarrow> True | Some u \<Rightarrow> u = 0 \<or> ug_user_id g = u))
               (user_games s)))"

subsection \<open>The dedupe key\<close>

text \<open>\<open>String(n)\<close> of a non-negative integer: its decimal digits.\<close>

fun dec :: "nat \<Rightarrow> jsstring" where
  "dec n = (if n < 10 then [48 + n] else dec (n div 10) @ [48 + n mod 10])"

declare dec.simps [simp del]

text \<open>\<open>Number(s)\<close> of a string of decimal digits.\<close>

definition digits_value :: "jsstring \<Rightarrow> nat" where
  "digits_value s = foldl (\<lambda>a c. 10 * a + (c - 48)) 0 s"

fun channel_str :: "Channel \<Rightarrow> jsstring" where
  "channel_str WEBPUSH = asc ''WEBPUSH''"
| "channel_str EMAIL = asc ''EMAIL''"
| "channel_str DISCORD = asc ''DISCORD''"

fun trigger_str :: "Trigger \<Rightarrow> jsstring" where
  "trigger_str ON_START = asc ''ON_START''"
| "trigger_str ON_END = asc ''ON_END''"
| "trigger_str BEFORE_END = asc ''BEFORE_END''"
| "trigger_str BEFORE_START = asc ''BEFORE_START''"
| "trigger_str ON_PUBLISH = asc ''ON_PUBLISH''"

fun join :: "jsstring \<Rightarrow> jsstring list \<Rightarrow> jsstring" where
  "join sep [] = []"
| "join sep [x] = x"
| "join sep (x # y # ys) = x @ sep @ join sep (y # ys)"

definition makeDedupeKey :: "nat \<Rightarrow> nat \<Rightarrow> Channel \<Rightarrow> Trigger \<Rightarrow> nat \<Rightarrow> jsstring" where
  "makeDedupeKey userId eventId ch trg offsetMin =
     join (asc '':'') [dec userId, dec eventId, channel_str ch, trigger_str trg, dec offsetMin]"

subsection \<open>Upsert, purge and planning\<close>

text \<open>
  \<open>INSERT ... ON CONFLICT (dedupe_key) DO UPDATE\<close>: a row with the key is updated in place,
  keeping \<open>SENT\<close> and forcing every other status to \<open>PENDING\<close>; without one a \<open>PENDING\<close> row
  is appended. The id sequence advances in both cases, as PostgreSQL draws the default
  before it detects the conflict.
\<close>

definition on_conflict_update :: "int \<Rightarrow> int \<Rightarrow> Payload \<Rightarrow> ScheduleRow \<Rightarrow> ScheduleRow" where
  "on_conflict_update now scheduledAt payload r =
     r\<lparr>ns_scheduled_at_utc := scheduledAt,
       ns_payload_json := payload,
       ns_status := (if ns_status r = SENT then ns_status r else PENDING),
       ns_updated_at := now\<rparr>"

text \<open>The locals \<open>offset\<close>, \<open>dedupeKey\<close> and \<open>payload\<close> of \<open>upsertSchedule\<close>.\<close>

definition rule_offset :: "RuleRow \<Rightarrow> nat" where
  "rule_offset rule = (case rule_offset_minutes rule of Some n \<Rightarrow> n | None \<Rightarrow> 0)"

definition schedule_key :: "nat \<Rightarrow> EventRow \<Rightarrow> RuleRow \<Rightarrow> jsstring" where
  "schedule_key userId event rule =
     makeDedupeKey userId (ev_id event) (rule_channel rule) (rule_trigger rule) (rule_offset rule)"

definition schedule_payload :: "EventRow \<Rightarrow> RuleRow \<Rightarrow> Payload" where
  "schedule_payload event rule =
     \<lparr>eventTitle = ev_title event, eventType = ev_type event, trigger = rule_trigger rule,
      offsetMinutes = rule_offset rule, channel = rule_channel rule\<rparr>"

definition upsertSchedule :: "int \<Rightarrow> nat \<Rightarrow> EventRow \<Rightarrow> RuleRow \<Rightarrow> int \<Rightarrow> db \<Rightarrow> db" where
  "upsertSchedule now userId event rule scheduledAt s =
     (let dedupeKey = schedule_key userId event rule;
          payload = schedule_payload event rule;
          newId = Suc (notification_schedules_id_seq s);
          rows = notification_schedules s
      in s\<lparr>notification_schedules :=
               (if list_ex (\<lambda>r. ns_dedupe_key r = dedupeKey) rows
                then map (\<lambda>r. if ns_dedupe_key r = dedupeKey
                               then on_conflict_update now scheduledAt payload r else r) rows
                else rows @ [\<lparr>ns_id = newId, ns_user_id = userId, ns_event_id = ev_id event,
                               ns_channel = rule_channel rule, ns_trigger_type = rule_trigger rule,
                               ns_trigger_offset_minutes = rule_offset rule,
                               ns_scheduled_at_utc = scheduledAt, ns_status = PENDING,
                               ns_payload_json = payload, ns_dedupe_key = dedupeKey,
                               ns_created_at = now, ns_updated_at = now\<rparr>]),
           notification_schedules_id_seq := newId\<rparr>)"

record PlanCount =
  planned :: nat
  skipped :: nat

text \<open>The body of the inner loop of \<open>planForEventAndUsers\<close>, for one user and one rule.\<close>

definition plan_rule :: "int \<Rightarrow> EventRow \<Rightarrow> db \<times> PlanCount \<Rightarrow> nat \<times> RuleRow \<Rightarrow> db \<times> PlanCount" where
  "plan_rule now event acc ur =
     (case acc of (s, c) \<Rightarrow> case ur of (userId, rule) \<Rightarrow>
        (case computeScheduledAt now rule event of
           None \<Rightarrow> (s, c\<lparr>skipped := skipped c + 1\<rparr>)
         | Some scheduledAt \<Rightarrow>
             if scheduledAt < now - 5 * 60 * 1000
             then (s, c\<lparr>skipped := skipped c + 1\<rparr>)
             else (upsertSchedule now userId event rule scheduledAt s,
                   c\<lparr>planned := planned c + 1\<rparr>)))"

text \<open>
  \<open>groupedRulesByUser\<close>, in the order the two loops visit it: the target users are
  distinct, so the map holds one entry per user, in insertion order.
\<close>

definition groupedRulesByUser :: "db \<Rightarrow> EventRow \<Rightarrow> nat list \<Rightarrow> (nat \<times> RuleRow) list" where
  "groupedRulesByUser s event targetUsers =
     concat (map (\<lambda>userId. map (Pair userId) (getEligibleRulesForEvent s event (Some userId)))
                 targetUsers)"

definition planForEventAndUsers :: "int \<Rightarrow> EventRow \<Rightarrow> nat option \<Rightarrow> db \<Rightarrow> db \<times> PlanCount" where
  "planForEventAndUsers now event explicitUserId s =
     (if ev_visibility event \<noteq> PUBLIC then (s, \<lparr>planned = 0, skipped = 0\<rparr>)
      else let targetUsers = getTargetUsersForRegion s (ev_region_id event) explicitUserId
           in if targetUsers = [] then (s, \<lparr>planned = 0, skipped = 0\<rparr>)
              else foldl (plan_rule now event) (s, \<lparr>planned = 0, skipped = 0\<rparr>)
                     (groupedRulesByUser s event targetUsers))"

definition purgeable :: "ScheduleStatus \<Rightarrow> bool" where
  "purgeable st = (st = PENDING \<or> st = FAILED \<or> st = CANCELED)"

text \<open>
  A \<open>DELETE\<close> on \<open>notification_schedules\<close>. The delivery log refers to its schedule by
  \<open>schedule_id BIGINT NOT NULL REFERENCES notification_schedules(id) ON DELETE CASCADE\<close>, so
  the log rows of a deleted schedule are deleted with it. No other table refers to a
  schedule.
\<close>

definition delete_schedules :: "(ScheduleRow \<Rightarrow> bool) \<Rightarrow> db \<Rightarrow> db" where
  "delete_schedules P s =
     s\<lparr>notification_schedules := filter (\<lambda>r. \<not> P r) (notification_schedules s),
       notification_deliveries :=
         filter (\<lambda>d. nd_schedule_id d \<notin> set (map ns_id (filter P (notification_schedules s))))
                (notification_deliveries s)\<rparr>"

definition purge_event :: "nat \<Rightarrow> db \<Rightarrow> db" where
  "purge_event eventId s =
     delete_schedules (\<lambda>r. ns_event_id r = eventId \<and> purgeable (ns_status r)) s"

definition purge_user :: "nat \<Rightarrow> db \<Rightarrow> db" where
  "purge_user userId s =
     delete_schedules (\<lambda>r. ns_user_id r = userId \<and> purgeable (ns_status r)) s"

datatype PlanReason = event_not_found | ok

definition planNotificationsForEvent :: "int \<Rightarrow> nat \<Rightarrow> db \<Rightarrow> db \<times> PlanCount \<times> PlanReason" where
  "planNotificationsForEvent now eventId s =
     (case getEvent s eventId of
        None \<Rightarrow> (s, \<lparr>planned = 0, skipped = 0\<rparr>, event_not_found)
      | Some event \<Rightarrow>
          (case planForEventAndUsers now event None (purge_event eventId s) of
             (s', c) \<Rightarrow> (s', c, ok)))"

text \<open>
  \<open>rebuildSchedulesForUser\<close>: the join yields an event once per matching subscription
  row; each is planned for the one user.
\<close>

definition rebuild_events :: "int \<Rightarrow> nat \<Rightarrow> db \<Rightarrow> EventRow list" where
  "rebuild_events now userId s =
     concat (map (\<lambda>e. map (\<lambda>g. e)
                    (filter (\<lambda>g. ug_region_id g = ev_region_id e \<and> ug_user_id g = userId
                                 \<and> ug_enabled g \<and> ev_visibility e = PUBLIC
                                 \<and> (case ev_end_at_utc e of None \<Rightarrow> True
                                      | Some t \<Rightarrow> now - 86400000 \<le> t))
                            (user_games s)))
                 (events s))"

definition rebuild_step :: "int \<Rightarrow> nat \<Rightarrow> db \<times> PlanCount \<Rightarrow> EventRow \<Rightarrow> db \<times> PlanCount" where
  "rebuild_step now userId acc event =
     (case acc of (s, c) \<Rightarrow>
        (case planForEventAndUsers now event (Some userId) s of
           (s', r) \<Rightarrow> (s', \<lparr>planned = planned c + planned r, skipped = skipped c + skipped r\<rparr>)))"

definition rebuildSchedulesForUser :: "int \<Rightarrow> nat \<Rightarrow> db \<Rightarrow> db \<times> PlanCount \<times> nat" where
  "rebuildSchedulesForUser now userId s =
     (let s1 = purge_user userId s;
          eventRows = rebuild_events now userId s1
      in case foldl (rebuild_step now userId) (s1, \<lparr>planned = 0, skipped = 0\<rparr>) eventRows of
           (s', c) \<Rightarrow> (s', c, length eventRows))"

section \<open>Ingest (ingest.ts)\<close>

subsection \<open>Numbers\<close>

text \<open>
  A JavaScript number is an IEEE 754 double. The scores are sums of at most four decimal
  literals, all in the interval from 0 to 2, so a double is carried as the rational it
  is: \<open>fl\<close> rounds a rational in that interval to the nearest double (53 significant
  bits, ties to even), a decimal literal denotes \<open>fl\<close> of its value, and \<open>+\<close> is the
  exact sum rounded. \<open>binade n q\<close> is the power of two at or below \<open>q\<close>.
\<close>

type_synonym number = rat

fun binade :: "nat \<Rightarrow> rat \<Rightarrow> rat" where
  "binade 0 q = 1"
| "binade (Suc n) q = (if 1 \<le> q then 1 else binade n (2 * q) / 2)"

definition fl :: "rat \<Rightarrow> number" where
  "fl q = (if q = 0 then 0
           else let u = binade 1074 q / 2 ^ 52;
                    n = q / u;
                    f = \<lfloor>n\<rfloor>;
                    r = n - of_int f
                in of_int (if r < 1 / 2 then f
                           else if 1 / 2 < r then f + 1
                           else if even f then f else f + 1) * u)"

definition fadd :: "number \<Rightarrow> number \<Rightarrow> number" where
  "fadd x y = fl (x + y)"

subsection \<open>Text\<close>

text \<open>
  \<open>\s\<close> of a regular expression, which is also what \<open>trim\<close> removes: the white space
  and line terminator code points.
\<close>

definition is_digit :: "nat \<Rightarrow> bool" where
  "is_digit c = (48 \<le> c \<and> c \<le> 57)"

definition is_space :: "nat \<Rightarrow> bool" where
  "is_space c = (c \<in> {9, 10, 11, 12, 13, 32, 160, 5760, 8232, 8233, 8239, 8287, 12288, 65279}
                 \<or> (8192 \<le> c \<and> c \<le> 8202))"

text \<open>\<open>replace(/\s+/g, " ")\<close>\<close>

function collapse_ws :: "jsstring \<Rightarrow> jsstring" where
  "collapse_ws [] = []"
| "collapse_ws (c # cs) =
     (if is_space c then 32 # collapse_ws (dropWhile is_space cs) else c # collapse_ws cs)"
  by pat_completeness auto

termination
  by (relation "measure length") (auto simp: le_imp_less_Suc length_dropWhile_le)

definition trim :: "jsstring \<Rightarrow> jsstring" where
  "trim s = rev (dropWhile is_space (rev (dropWhile is_space s)))"

definition normalizeText :: "jsstring \<Rightarrow> jsstring" where
  "normalizeText input = trim (collapse_ws input)"

definition summarize :: "jsstring \<Rightarrow> nat \<Rightarrow> jsstring" where
  "summarize input maxLength =
     (let normalized = normalizeText input
      in if length normalized \<le> maxLength then normalized
         else take (maxLength - 1) normalized @ asc ''...'')"

text \<open>
  \<open>toLowerCase\<close> follows the engine's Unicode case tables and \<open>sha256\<close> is the
  library's digest; the functions that call them take them as the argument \<open>eng\<close>.
  \<open>ascii_lower\<close> is \<open>toLowerCase\<close> on text without cased letters outside ASCII.
\<close>

record engine =
  toLowerCase :: "jsstring \<Rightarrow> jsstring"
  sha256 :: "jsstring \<Rightarrow> jsstring"

definition ascii_lower :: "jsstring \<Rightarrow> jsstring" where
  "ascii_lower s = map (\<lambda>c. if 65 \<le> c \<and> c \<le> 90 then c + 32 else c) s"

text \<open>\<open>source.includes(word)\<close>\<close>

fun str_includes :: "jsstring \<Rightarrow> jsstring \<Rightarrow> bool" where
  "str_includes [] w = (w = [])"
| "str_includes (c # cs) w = (take (length w) (c # cs) = w \<or> str_includes cs w)"

text \<open>
  \<open>slugify\<close>: lower case, drop all but \<open>a-z\<close>, \<open>0-9\<close>, white space and \<open>-\<close>, trim, turn
  each run of white space into \<open>-\<close>, keep 60 code units.
\<close>

definition slug_char :: "nat \<Rightarrow> bool" where
  "slug_char c = ((97 \<le> c \<and> c \<le> 122) \<or> is_digit c \<or> is_space c \<or> c = 45)"

definition slugify :: "engine \<Rightarrow> jsstring \<Rightarrow> jsstring" where
  "slugify eng input =
     take 60 (map (\<lambda>c. if c = 32 then 45 else c)
                (collapse_ws (trim (filter slug_char (toLowerCase eng input)))))"

subsection \<open>Dates\<close>

text \<open>
  The day number of a civil date and back (\<open>MakeDay\<close> and the year, month and date of a
  time value), in the proleptic Gregorian calendar; a day of the month past the month's
  end runs into the next month, as \<open>MakeDay\<close> has it.
\<close>

definition days_from_civil :: "int \<Rightarrow> int \<Rightarrow> int \<Rightarrow> int" where
  "days_from_civil y m d =
     (let y' = (if m \<le> 2 then y - 1 else y);
          era = y' div 400;
          yoe = y' - era * 400;
          doy = (153 * (if 2 < m then m - 3 else m + 9) + 2) div 5 + d - 1;
          doe = yoe * 365 + yoe div 4 - yoe div 100 + doy
      in era * 146097 + doe - 719468)"

definition civil_from_days :: "int \<Rightarrow> int \<times> int \<times> int" where
  "civil_from_days z =
     (let z' = z + 719468;
          era = z' div 146097;
          doe = z' - era * 146097;
          yoe = (doe - doe div 1460 + doe div 36524 - doe div 146096) div 365;
          doy = doe - (365 * yoe + yoe div 4 - yoe div 100);
          mp = (5 * doy + 2) div 153;
          d = doy - (153 * mp + 2) div 5 + 1;
          m = (if mp < 10 then mp + 3 else mp - 9);
          y = yoe + era * 400
      in (if m \<le> 2 then y + 1 else y, m, d))"

definition padStart :: "nat \<Rightarrow> jsstring \<Rightarrow> jsstring" where
  "padStart n s = replicate (n - length s) 48 @ s"

text \<open>
  \<open>Date.prototype.toISOString\<close>: \<open>YYYY-MM-DDTHH:mm:ss.sssZ\<close>, the year with a sign and six
  digits outside 0 to 9999.
\<close>

definition toISOString :: "int \<Rightarrow> jsstring" where
  "toISOString t =
     (let day = t div 86400000;
          ms = t mod 86400000;
          (y, m, d) = civil_from_days day;
          year = (if 0 \<le> y \<and> y \<le> 9999 then padStart 4 (dec (nat y))
                  else (if y < 0 then asc ''-'' else asc ''+'') @ padStart 6 (dec (nat \<bar>y\<bar>)))
      in year @ asc ''-'' @ padStart 2 (dec (nat m)) @ asc ''-'' @ padStart 2 (dec (nat d))
         @ asc ''T'' @ padStart 2 (dec (nat (ms div 3600000)))
         @ asc '':'' @ padStart 2 (dec (nat (ms div 60000 mod 60)))
         @ asc '':'' @ padStart 2 (dec (nat (ms div 1000 mod 60)))
         @ asc ''.'' @ padStart 3 (dec (nat (ms mod 1000))) @ asc ''Z'')"

text \<open>
  The instant an ISO string of that form denotes, which is what the \<open>timestamptz\<close>
  columns store when the draft's strings are written to \<open>events\<close>.
\<close>

definition fromISOString :: "jsstring \<Rightarrow> int" where
  "fromISOString s =
     (let signed = (case s of [] \<Rightarrow> False | c # _ \<Rightarrow> c = 43 \<or> c = 45);
          yd = (if signed then take 6 (drop 1 s) else take 4 s);
          r = (if signed then drop 7 s else drop 4 s);
          y = (if signed \<and> hd s = 45 then - int (digits_value yd) else int (digits_value yd));
          field = (\<lambda>i n. int (digits_value (take n (drop i r))))
      in days_from_civil y (field 1 2) (field 4 2) * 86400000
         + field 7 2 * 3600000 + field 10 2 * 60000 + field 13 2 * 1000 + field 16 3)"

subsection \<open>The date patterns\<close>

text \<open>
  A pattern is the function from the text at a position to its matches there, each with
  its groups, in the order a backtracking matcher tries them: a greedy quantifier offers
  the longest repetition first, and a sequence runs through the alternatives of its first
  part in order, within each through those of the rest. \<open>String.prototype.match\<close> returns
  the first match at the leftmost position that has one.
\<close>

definition rx_digits :: "nat \<Rightarrow> nat \<Rightarrow> jsstring \<Rightarrow> (jsstring \<times> jsstring) list" where
  "rx_digits lo hi s =
     (let k = length (takeWhile is_digit (take hi s))
      in map (\<lambda>j. (take j s, drop j s)) (rev [lo ..< Suc k]))"

definition rx_char :: "(nat \<Rightarrow> bool) \<Rightarrow> jsstring \<Rightarrow> jsstring list" where
  "rx_char P s = (case s of [] \<Rightarrow> [] | c # r \<Rightarrow> if P c then [r] else [])"

definition rx_spaces :: "jsstring \<Rightarrow> jsstring list" where
  "rx_spaces s = map (\<lambda>j. drop j s) (rev [0 ..< Suc (length (takeWhile is_space s))])"

definition is_date_sep :: "nat \<Rightarrow> bool" where
  "is_date_sep c = (c = 46 \<or> c = 47 \<or> c = 45)"

definition is_range_sep :: "nat \<Rightarrow> bool" where
  "is_range_sep c = (c = 126 \<or> c = 45 \<or> c = 8211)"

type_synonym datetime_groups = "jsstring \<times> jsstring \<times> jsstring \<times> jsstring \<times> jsstring"

text \<open>\<open>(\d{1,2}):(\d{2})\<close>\<close>

definition rx_time :: "jsstring \<Rightarrow> ((jsstring \<times> jsstring) \<times> jsstring) list" where
  "rx_time s =
     List.bind (rx_digits 1 2 s) (\<lambda>(h, r1).
     List.bind (rx_char (\<lambda>c. c = 58) r1) (\<lambda>r2.
     List.bind (rx_digits 2 2 r2) (\<lambda>(mi, r3). [((h, mi), r3)])))"

text \<open>\<open>(\d{4})[./-](\d{1,2})[./-](\d{1,2})\s*(\d{1,2}):(\d{2})\<close>\<close>

definition rx_datetime :: "jsstring \<Rightarrow> (datetime_groups \<times> jsstring) list" where
  "rx_datetime s =
     List.bind (rx_digits 4 4 s) (\<lambda>(y, r1).
     List.bind (rx_char is_date_sep r1) (\<lambda>r2.
     List.bind (rx_digits 1 2 r2) (\<lambda>(mo, r3).
     List.bind (rx_char is_date_sep r3) (\<lambda>r4.
     List.bind (rx_digits 1 2 r4) (\<lambda>(d, r5).
     List.bind (rx_spaces r5) (\<lambda>r6.
     List.bind (rx_time r6) (\<lambda>((h, mi), r7). [((y, mo, d, h, mi), r7)])))))))"

text \<open>\<open>\s*[~\-\<dots>]\s*\<close>, the third member of the class being the en dash U+2013.\<close>

definition rx_tilde :: "jsstring \<Rightarrow> jsstring list" where
  "rx_tilde s =
     List.bind (rx_spaces s) (\<lambda>r1.
     List.bind (rx_char is_range_sep r1) (\<lambda>r2. rx_spaces r2))"

definition fullRangePattern :: "jsstring \<Rightarrow> (datetime_groups \<times> datetime_groups) list" where
  "fullRangePattern s =
     List.bind (rx_datetime s) (\<lambda>(a, r1).
     List.bind (rx_tilde r1) (\<lambda>r2.
     List.bind (rx_datetime r2) (\<lambda>(b, r3). [(a, b)])))"

definition sameDateRangePattern :: "jsstring \<Rightarrow> (datetime_groups \<times> jsstring \<times> jsstring) list" where
  "sameDateRangePattern s =
     List.bind (rx_datetime s) (\<lambda>(a, r1).
     List.bind (rx_tilde r1) (\<lambda>r2.
     List.bind (rx_time r2) (\<lambda>(b, r3). [(a, b)])))"

definition singlePattern :: "jsstring \<Rightarrow> datetime_groups list" where
  "singlePattern s = map fst (rx_datetime s)"

fun rx_match :: "(jsstring \<Rightarrow> 'a list) \<Rightarrow> jsstring \<Rightarrow> 'a option" where
  "rx_match p [] = (case p [] of [] \<Rightarrow> None | m # _ \<Rightarrow> Some m)"
| "rx_match p (c # cs) = (case p (c # cs) of [] \<Rightarrow> rx_match p cs | m # _ \<Rightarrow> Some m)"

subsection \<open>extractDateRange\<close>

text \<open>
  \<open>timezoneOffset\<close>, in minutes. The lookup \<open>map[timezone]\<close> also finds the members the
  table inherits from \<open>Object.prototype\<close>; for those names the result is no offset and the
  date string built from it is invalid (\<open>None\<close>).
\<close>

definition object_prototype_keys :: "jsstring list" where
  "object_prototype_keys = map asc
     [''constructor'', ''__defineGetter__'', ''__defineSetter__'', ''hasOwnProperty'',
      ''__lookupGetter__'', ''__lookupSetter__'', ''isPrototypeOf'', ''propertyIsEnumerable'',
      ''toString'', ''valueOf'', ''__proto__'', ''toLocaleString'']"

definition timezoneOffset :: "jsstring \<Rightarrow> int option" where
  "timezoneOffset timezone =
     (if timezone = asc ''Asia/Seoul'' then Some 540
      else if timezone = asc ''Asia/Tokyo'' then Some 540
      else if timezone = asc ''UTC'' then Some 0
      else if timezone \<in> set object_prototype_keys then None
      else Some 0)"

text \<open>
  \<open>new Date("YYYY-MM-DDTHH:MM:00+hh:mm")\<close> on the zero-padded fields, as V8 parses it:
  the month must be 1 to 12, the day 1 to 31, the time at most 23:59 or else 24:00;
  anything else is an invalid date. The value is the civil time less the offset.
\<close>

definition Date_parse :: "nat \<Rightarrow> nat \<Rightarrow> nat \<Rightarrow> nat \<Rightarrow> nat \<Rightarrow> int \<Rightarrow> int option" where
  "Date_parse year month day hour minute offset =
     (if 1 \<le> month \<and> month \<le> 12 \<and> 1 \<le> day \<and> day \<le> 31
         \<and> (hour \<le> 23 \<and> minute \<le> 59 \<or> hour = 24 \<and> minute = 0)
      then Some (days_from_civil (int year) (int month) (int day) * 86400000
                 + int hour * 3600000 + int minute * 60000 - offset * 60000)
      else None)"

definition toUtcIso :: "datetime_groups \<Rightarrow> jsstring \<Rightarrow> jsstring option" where
  "toUtcIso parts timezone =
     (case parts of (year, month, day, hour, minute) \<Rightarrow>
        (case timezoneOffset timezone of
           None \<Rightarrow> None
         | Some offset \<Rightarrow>
             map_option toISOString
               (Date_parse (digits_value year) (digits_value month) (digits_value day)
                  (digits_value hour) (digits_value minute) offset)))"

record DateRange =
  startAtUtc :: "jsstring option"
  endAtUtc :: "jsstring option"
  score :: number

definition extractDateRange :: "jsstring \<Rightarrow> jsstring \<Rightarrow> DateRange" where
  "extractDateRange text timezone =
     (let source = normalizeText text in
      case rx_match fullRangePattern source of
        Some (a, b) \<Rightarrow>
          (let s = toUtcIso a timezone; e = toUtcIso b timezone
           in \<lparr>startAtUtc = s, endAtUtc = e,
               score = (if s \<noteq> None \<and> e \<noteq> None then fl (35 / 100) else fl (15 / 100))\<rparr>)
      | None \<Rightarrow>
      (case rx_match sameDateRangePattern source of
        Some ((y, mo, d, h, mi), (h2, mi2)) \<Rightarrow>
          (let s = toUtcIso (y, mo, d, h, mi) timezone; e = toUtcIso (y, mo, d, h2, mi2) timezone
           in \<lparr>startAtUtc = s, endAtUtc = e,
               score = (if s \<noteq> None \<and> e \<noteq> None then fl (3 / 10) else fl (1 / 10))\<rparr>)
      | None \<Rightarrow>
      (case rx_match singlePattern source of
        Some a \<Rightarrow>
          (let date = toUtcIso a timezone
           in \<lparr>startAtUtc = date, endAtUtc = None,
               score = (if date \<noteq> None then fl (15 / 100) else fl (5 / 100))\<rparr>)
      | None \<Rightarrow> \<lparr>startAtUtc = None, endAtUtc = None, score = 0\<rparr>)))"

subsection \<open>detectEventType and the draft\<close>

definition pickupKeywords :: "jsstring list" where
  "pickupKeywords = [asc ''pickup'', asc ''pick-up'', asc ''rate up'', [44032, 52320],
                     [54589, 50629], asc ''recruitment'', asc ''warp'']"

definition updateKeywords :: "jsstring list" where
  "updateKeywords = [asc ''update'', asc ''patch'', [54056, 52824], [50629, 45936, 51060, 53944],
                     asc ''version'',
                     [51216, 44160, 32, 54980, 32, 50629, 45936, 51060, 53944]]"

definition maintenanceKeywords :: "jsstring list" where
  "maintenanceKeywords = [asc ''maintenance'', [51216, 44160], asc ''maintenance notice'',
                          [44596, 44553, 32, 51216, 44160]]"

definition campaignKeywords :: "jsstring list" where
  "campaignKeywords = [asc ''campaign'', [52896, 54168, 51064], [48372, 45320, 49828],
                       asc ''2x'', asc ''double drop'']"

definition hit :: "jsstring \<Rightarrow> jsstring list \<Rightarrow> bool" where
  "hit source keywords = list_ex (\<lambda>word. str_includes source word) keywords"

definition detectEventType :: "engine \<Rightarrow> jsstring \<Rightarrow> EventType \<times> number" where
  "detectEventType eng text =
     (let source = toLowerCase eng text
      in if hit source pickupKeywords then (PICKUP, fl (25 / 100))
         else if hit source maintenanceKeywords then (MAINTENANCE, fl (25 / 100))
         else if hit source updateKeywords then (UPDATE, fl (22 / 100))
         else if hit source campaignKeywords then (CAMPAIGN, fl (2 / 10))
         else (EVENT, fl (1 / 10)))"

definition toVisibility :: "number \<Rightarrow> Visibility" where
  "toVisibility confidence = (if fl (65 / 100) \<le> confidence then PUBLIC else NEED_REVIEW)"

record ParsedEventDraft =
  draft_type :: EventType
  draft_title :: jsstring
  draft_summary :: jsstring
  draft_startAtUtc :: "jsstring option"
  draft_endAtUtc :: "jsstring option"
  draft_confidence :: number
  draft_visibility :: Visibility

definition parseRawNoticeToEventDraft ::
  "engine \<Rightarrow> jsstring \<Rightarrow> jsstring \<Rightarrow> jsstring \<Rightarrow> ParsedEventDraft" where
  "parseRawNoticeToEventDraft eng title contentText timezone =
     (let merged = title @ [10] @ contentText;
          (type, typeScore) = detectEventType eng merged;
          dateRange = extractDateRange merged timezone;
          summary = summarize (if contentText \<noteq> [] then contentText else title) 220;
          confidence = min 1 (fadd (fadd (fadd (fl (35 / 100)) typeScore) (score dateRange))
                                   (if 20 < length summary then fl (1 / 10) else 0))
      in \<lparr>draft_type = type, draft_title = normalizeText title, draft_summary = summary,
          draft_startAtUtc = startAtUtc dateRange, draft_endAtUtc = endAtUtc dateRange,
          draft_confidence = confidence, draft_visibility = toVisibility confidence\<rparr>)"

subsection \<open>Raw notices and events\<close>

fun type_str :: "EventType \<Rightarrow> jsstring" where
  "type_str PICKUP = asc ''PICKUP''"
| "type_str UPDATE = asc ''UPDATE''"
| "type_str MAINTENANCE = asc ''MAINTENANCE''"
| "type_str EVENT = asc ''EVENT''"
| "type_str CAMPAIGN = asc ''CAMPAIGN''"

definition toCanonicalEventKey ::
  "engine \<Rightarrow> nat \<Rightarrow> EventType \<Rightarrow> jsstring \<Rightarrow> jsstring option \<Rightarrow> jsstring option \<Rightarrow> jsstring" where
  "toCanonicalEventKey eng regionId type title start end =
     (let na = (\<lambda>v. case v of None \<Rightarrow> asc ''na'' | Some t \<Rightarrow> t);
          base = join (asc '':'') [dec regionId, type_str type, slugify eng title, na start, na end];
          hash = take 12 (sha256 eng base)
      in join (asc ''-'') [dec regionId, toLowerCase eng (type_str type), slugify eng title, hash])"

text \<open>
  \<open>upsertRawNotice\<close>. With a stored row of the same source and url and the same hash, the
  \<open>UPDATE\<close> sets \<open>fetched_at\<close>, \<open>title\<close> and \<open>published_at = COALESCE($4, published_at)\<close>
  and the result is \<open>changed: false\<close>; otherwise the insert-or-update rewrites the row,
  status \<open>NEW\<close>, and the result is \<open>changed: true\<close>.
\<close>

definition same_notice :: "nat \<Rightarrow> jsstring \<Rightarrow> RawNoticeRow \<Rightarrow> bool" where
  "same_notice sourceId url r = (rn_source_id r = sourceId \<and> rn_url r = url)"

definition refresh_notice :: "int \<Rightarrow> RawCandidate \<Rightarrow> RawNoticeRow \<Rightarrow> RawNoticeRow" where
  "refresh_notice now candidate r =
     r\<lparr>rn_fetched_at := now,
       rn_title := rc_title candidate,
       rn_published_at := (case rc_publishedAt candidate of Some p \<Rightarrow> Some p
                           | None \<Rightarrow> rn_published_at r)\<rparr>"

definition rewrite_notice :: "int \<Rightarrow> RawCandidate \<Rightarrow> jsstring \<Rightarrow> RawNoticeRow \<Rightarrow> RawNoticeRow" where
  "rewrite_notice now candidate contentHash r =
     r\<lparr>rn_title := rc_title candidate,
       rn_published_at := rc_publishedAt candidate,
       rn_fetched_at := now,
       rn_content_text := Some (rc_contentText candidate),
       rn_content_hash := Some contentHash,
       rn_raw_payload := Some (rc_rawPayload candidate),
       rn_parser_version := asc ''v1'',
       rn_status := NEW\<rparr>"

definition upsertRawNotice :: "engine \<Rightarrow> int \<Rightarrow> nat \<Rightarrow> RawCandidate \<Rightarrow> db \<Rightarrow> db \<times> nat \<times> bool" where
  "upsertRawNotice eng now sourceId candidate s =
     (let merged = normalizeText (rc_title candidate @ [10] @ rc_contentText candidate);
          contentHash = sha256 eng merged;
          existing = filter (same_notice sourceId (rc_url candidate)) (raw_notices s)
      in case existing of
           r # _ \<Rightarrow>
             if rn_content_hash r = Some contentHash
             then (s\<lparr>raw_notices :=
                       map (\<lambda>r. if same_notice sourceId (rc_url candidate) r
                                then refresh_notice now candidate r else r)
                           (raw_notices s)\<rparr>,
                   rn_id r, False)
             else (s\<lparr>raw_notices :=
                       map (\<lambda>r. if same_notice sourceId (rc_url candidate) r
                                then rewrite_notice now candidate contentHash r else r)
                           (raw_notices s),
                     raw_notices_id_seq := Suc (raw_notices_id_seq s)\<rparr>,
                   rn_id r, True)
         | [] \<Rightarrow>
             (let newId = Suc (raw_notices_id_seq s)
              in (s\<lparr>raw_notices := raw_notices s @
                       [\<lparr>rn_id = newId, rn_source_id = sourceId, rn_url = rc_url candidate,
                         rn_title = rc_title candidate,
                         rn_published_at = rc_publishedAt candidate, rn_fetched_at = now,
                         rn_content_text = Some (rc_contentText candidate),
                         rn_content_hash = Some contentHash,
                         rn_raw_payload = Some (rc_rawPayload candidate),
                         rn_parser_version = asc ''v1'', rn_status = NEW\<rparr>],
                     raw_notices_id_seq := newId\<rparr>,
                  newId, True)))"

definition getRawNotice :: "db \<Rightarrow> nat \<Rightarrow> RawNoticeRow option" where
  "getRawNotice s rawNoticeId = find (\<lambda>r. rn_id r = rawNoticeId) (raw_notices s)"

text \<open>\<open>NUMERIC(3,2)\<close>: the confidence as the \<open>events\<close> table keeps it.\<close>

definition numeric_3_2 :: "number \<Rightarrow> rat" where
  "numeric_3_2 q = of_int \<lfloor>q * 100 + 1 / 2\<rfloor> / 100"

definition upsertEventFromRaw ::
  "engine \<Rightarrow> int \<Rightarrow> SourceRow \<Rightarrow> RawNoticeRow \<Rightarrow> db \<Rightarrow> db \<times> nat \<times> Visibility \<times> number" where
  "upsertEventFromRaw eng now source rawNotice s =
     (let contentText = (case rn_content_text rawNotice of Some t \<Rightarrow> t | None \<Rightarrow> []);
          draft = parseRawNoticeToEventDraft eng (rn_title rawNotice) contentText
                    (src_region_timezone source);
          canonicalEventKey = toCanonicalEventKey eng (src_region_id source) (draft_type draft)
                    (draft_title draft) (draft_startAtUtc draft) (draft_endAtUtc draft);
          newId = Suc (events_id_seq s);
          conflict = filter (\<lambda>e. ev_canonical_event_key e = canonicalEventKey) (events s);
          eventId = (case conflict of e # _ \<Rightarrow> ev_id e | [] \<Rightarrow> newId);
          s1 = s\<lparr>events :=
                   (if conflict \<noteq> []
                    then map (\<lambda>e. if ev_canonical_event_key e = canonicalEventKey
                                   then e\<lparr>ev_type := draft_type draft,
                                          ev_title := draft_title draft,
                                          ev_summary := Some (draft_summary draft),
                                          ev_start_at_utc := map_option fromISOString (draft_startAtUtc draft),
                                          ev_end_at_utc := map_option fromISOString (draft_endAtUtc draft),
                                          ev_source_url := rn_url rawNotice,
                                          ev_confidence := numeric_3_2 (draft_confidence draft),
                                          ev_visibility := draft_visibility draft,
                                          ev_updated_at := now\<rparr>
                                   else e) (events s)
                    else events s @
                         [\<lparr>ev_id = newId, ev_region_id = src_region_id source,
                           ev_type = draft_type draft, ev_title = draft_title draft,
                           ev_start_at_utc = map_option fromISOString (draft_startAtUtc draft),
                           ev_end_at_utc = map_option fromISOString (draft_endAtUtc draft),
                           ev_created_at = Some now, ev_visibility = draft_visibility draft,
                           ev_summary = Some (draft_summary draft),
                           ev_source_url = rn_url rawNotice,
                           ev_canonical_event_key = canonicalEventKey,
                           ev_confidence = numeric_3_2 (draft_confidence draft),
                           ev_updated_at = now\<rparr>]),
                 events_id_seq := newId\<rparr>;
          s2 = s1\<lparr>event_raw_links :=
                    (if (eventId, rn_id rawNotice) \<in> set (event_raw_links s1)
                     then event_raw_links s1
                     else event_raw_links s1 @ [(eventId, rn_id rawNotice)])\<rparr>;
          s3 = s2\<lparr>raw_notices :=
                    map (\<lambda>r. if rn_id r = rn_id rawNotice then r\<lparr>rn_status := PARSED\<rparr> else r)
                        (raw_notices s2)\<rparr>;
          s4 = fst (planNotificationsForEvent now eventId s3)
      in (s4, eventId, draft_visibility draft, draft_confidence draft))"

text \<open>
  One iteration of the loop of \<open>runSourceFetch\<close> over the fetched candidates, on the path
  where the storage calls succeed (the \<open>catch\<close> block, which marks the notice \<open>ERROR\<close>, is
  entered only when one of them throws).
\<close>

record FetchCount =
  parsedCount :: nat
  errorCount :: nat

definition process_candidate ::
  "engine \<Rightarrow> int \<Rightarrow> SourceRow \<Rightarrow> db \<times> FetchCount \<Rightarrow> RawCandidate \<Rightarrow> db \<times> FetchCount" where
  "process_candidate eng now source acc candidate =
     (case acc of (s, c) \<Rightarrow>
        (case upsertRawNotice eng now (src_id source) candidate s of
           (s1, rawNoticeId, changed) \<Rightarrow>
             if \<not> changed then (s1, c)
             else (case getRawNotice s1 rawNoticeId of
                     None \<Rightarrow> (s1, c)
                   | Some rawNotice \<Rightarrow>
                       (fst (upsertEventFromRaw eng now source rawNotice s1),
                        c\<lparr>parsedCount := parsedCount c + 1\<rparr>))))"

definition process_candidates ::
  "engine \<Rightarrow> int \<Rightarrow> SourceRow \<Rightarrow> RawCandidate list \<Rightarrow> db \<Rightarrow> db \<times> FetchCount" where
  "process_candidates eng now source candidates s =
     foldl (process_candidate eng now source) (s, \<lparr>parsedCount = 0, errorCount = 0\<rparr>) candidates"

section \<open>Dispatch (dispatch.ts)\<close>

text \<open>
  The \<open>try\<close>/\<open>catch\<close> of the dispatch loop handles rejected storage calls, so the model
  says when a call rejects: a list consumed one entry per \<open>pool.query\<close>, \<open>None\<close> for a
  call that succeeds and \<open>Some msg\<close> for one that throws \<open>Error(msg)\<close>; once the list is
  used up every call succeeds. A function that may throw returns \<open>Inl msg\<close>.
\<close>

type_synonym faults = "jsstring option list"

fun next_fault :: "faults \<Rightarrow> jsstring option \<times> faults" where
  "next_fault [] = (None, [])"
| "next_fault (f # fs) = (f, fs)"

definition markScheduleResult ::
  "int \<Rightarrow> nat \<Rightarrow> DeliveryResult \<Rightarrow> jsstring option \<Rightarrow> ResponsePayload \<Rightarrow> faults \<times> db
   \<Rightarrow> (faults \<times> db) \<times> (jsstring + unit)" where
  "markScheduleResult now scheduleId result errorMessage responsePayload st =
     (case st of (fs, s) \<Rightarrow>
        (case next_fault fs of
           (Some e, fs1) \<Rightarrow> ((fs1, s), Inl e)
         | (None, fs1) \<Rightarrow>
             (let s1 = s\<lparr>notification_deliveries := notification_deliveries s @
                          [\<lparr>nd_schedule_id = scheduleId, nd_sent_at_utc = now, nd_result = result,
                            nd_error_message = errorMessage,
                            nd_response_payload = responsePayload\<rparr>]\<rparr>
              in case next_fault fs1 of
                   (Some e, fs2) \<Rightarrow> ((fs2, s1), Inl e)
                 | (None, fs2) \<Rightarrow>
                     ((fs2, s1\<lparr>notification_schedules :=
                                 map (\<lambda>r. if ns_id r = scheduleId
                                          then r\<lparr>ns_status := (if result = SUCCESS then SENT else FAILED),
                                                 ns_updated_at := now\<rparr>
                                          else r)
                                     (notification_schedules s1)\<rparr>),
                      Inr ()))))"

definition hasPushSubscription :: "nat \<Rightarrow> faults \<times> db \<Rightarrow> (faults \<times> db) \<times> (jsstring + bool)" where
  "hasPushSubscription userId st =
     (case st of (fs, s) \<Rightarrow>
        (case next_fault fs of
           (Some e, fs1) \<Rightarrow> ((fs1, s), Inl e)
         | (None, fs1) \<Rightarrow>
             ((fs1, s), Inr (0 < length (filter (\<lambda>p. ps_user_id p = userId) (push_subscriptions s))))))"

definition hasEmail :: "nat \<Rightarrow> faults \<times> db \<Rightarrow> (faults \<times> db) \<times> (jsstring + bool)" where
  "hasEmail userId st =
     (case st of (fs, s) \<Rightarrow>
        (case next_fault fs of
           (Some e, fs1) \<Rightarrow> ((fs1, s), Inl e)
         | (None, fs1) \<Rightarrow>
             ((fs1, s), Inr (case find (\<lambda>u. us_id u = userId) (users s) of
                               None \<Rightarrow> False
                             | Some u \<Rightarrow> (case us_email u of None \<Rightarrow> False | Some m \<Rightarrow> m \<noteq> [])))))"

text \<open>
  The body of the \<open>try\<close> block for one claimed schedule: \<open>Inr True\<close> when it reaches
  \<open>sent += 1\<close>, \<open>Inr False\<close> when it reaches \<open>failed += 1; continue\<close>, \<open>Inl msg\<close> when a
  call throws.
\<close>

definition mark_failed ::
  "int \<Rightarrow> ScheduleRow \<Rightarrow> string \<Rightarrow> faults \<times> db \<Rightarrow> (faults \<times> db) \<times> (jsstring + bool)" where
  "mark_failed now schedule msg st =
     (case markScheduleResult now (ns_id schedule) DELIVERY_FAILED (Some (asc msg))
             (ChannelOnly (ns_channel schedule)) st of
        (st1, Inl e) \<Rightarrow> (st1, Inl e)
      | (st1, Inr _) \<Rightarrow> (st1, Inr False))"

definition mark_success ::
  "int \<Rightarrow> ScheduleRow \<Rightarrow> faults \<times> db \<Rightarrow> (faults \<times> db) \<times> (jsstring + bool)" where
  "mark_success now schedule st =
     (case markScheduleResult now (ns_id schedule) SUCCESS None
             (Simulated (ns_channel schedule) now) st of
        (st1, Inl e) \<Rightarrow> (st1, Inl e)
      | (st1, Inr _) \<Rightarrow> (st1, Inr True))"

definition try_deliver ::
  "int \<Rightarrow> ScheduleRow \<Rightarrow> faults \<times> db \<Rightarrow> (faults \<times> db) \<times> (jsstring + bool)" where
  "try_deliver now schedule st =
     (case ns_channel schedule of
        WEBPUSH \<Rightarrow>
          (case hasPushSubscription (ns_user_id schedule) st of
             (st1, Inl e) \<Rightarrow> (st1, Inl e)
           | (st1, Inr available) \<Rightarrow>
               if \<not> available then mark_failed now schedule ''No push subscription for user'' st1
               else mark_success now schedule st1)
      | EMAIL \<Rightarrow>
          (case hasEmail (ns_user_id schedule) st of
             (st1, Inl e) \<Rightarrow> (st1, Inl e)
           | (st1, Inr available) \<Rightarrow>
               if \<not> available then mark_failed now schedule ''User email not available'' st1
               else mark_success now schedule st1)
      | DISCORD \<Rightarrow> mark_failed now schedule ''Discord webhook is not configured'' st)"

record DispatchCount =
  sent :: nat
  failed :: nat

text \<open>
  One iteration of the loop. The \<open>catch\<close> block records \<open>FAILED\<close> with the error's message;
  if that throws as well, the error leaves \<open>dispatchDueNotifications\<close>.
\<close>

definition deliver_one ::
  "int \<Rightarrow> ScheduleRow \<Rightarrow> (faults \<times> db) \<times> DispatchCount
   \<Rightarrow> (faults \<times> db) \<times> (jsstring + DispatchCount)" where
  "deliver_one now schedule acc =
     (case acc of (st, c) \<Rightarrow>
        (case try_deliver now schedule st of
           (st1, Inr True) \<Rightarrow> (st1, Inr (c\<lparr>sent := sent c + 1\<rparr>))
         | (st1, Inr False) \<Rightarrow> (st1, Inr (c\<lparr>failed := failed c + 1\<rparr>))
         | (st1, Inl message) \<Rightarrow>
             (case markScheduleResult now (ns_id schedule) DELIVERY_FAILED (Some message)
                     (ChannelOnly (ns_channel schedule)) st1 of
                (st2, Inl e) \<Rightarrow> (st2, Inl e)
              | (st2, Inr _) \<Rightarrow> (st2, Inr (c\<lparr>failed := failed c + 1\<rparr>)))))"

fun deliver_all ::
  "int \<Rightarrow> ScheduleRow list \<Rightarrow> (faults \<times> db) \<times> DispatchCount
   \<Rightarrow> (faults \<times> db) \<times> (jsstring + DispatchCount)" where
  "deliver_all now [] acc = (fst acc, Inr (snd acc))"
| "deliver_all now (schedule # rest) acc =
     (case deliver_one now schedule acc of
        (st1, Inl e) \<Rightarrow> (st1, Inl e)
      | (st1, Inr c1) \<Rightarrow> deliver_all now rest (st1, c1))"

text \<open>
  The claim: the \<open>PENDING\<close> rows that are due, earliest first, at most \<open>limit\<close> of them,
  set to \<open>PROCESSING\<close> and returned. With a single dispatcher no row is locked, so
  \<open>SKIP LOCKED\<close> skips nothing. The transaction either commits or, when any of its
  statements throws, is rolled back and the error leaves the function; it draws one entry
  of the fault list.
\<close>

definition due_schedules :: "int \<Rightarrow> nat \<Rightarrow> db \<Rightarrow> ScheduleRow list" where
  "due_schedules now limit s =
     take limit (sort_key ns_scheduled_at_utc
       (filter (\<lambda>r. ns_status r = PENDING \<and> ns_scheduled_at_utc r \<le> now)
               (notification_schedules s)))"

definition claim :: "int \<Rightarrow> ScheduleRow \<Rightarrow> ScheduleRow" where
  "claim now r = r\<lparr>ns_status := PROCESSING, ns_updated_at := now\<rparr>"

definition claim_due :: "int \<Rightarrow> nat \<Rightarrow> db \<Rightarrow> db \<times> ScheduleRow list" where
  "claim_due now limit s =
     (let picked = due_schedules now limit s
      in (s\<lparr>notification_schedules :=
              map (\<lambda>r. if ns_id r \<in> set (map ns_id picked) then claim now r else r)
                  (notification_schedules s)\<rparr>,
          map (claim now) picked))"

record DispatchResult =
  dr_picked :: nat
  dr_sent :: nat
  dr_failed :: nat

definition dispatchDueNotifications ::
  "int \<Rightarrow> nat \<Rightarrow> faults \<times> db \<Rightarrow> (faults \<times> db) \<times> (jsstring + DispatchResult)" where
  "dispatchDueNotifications now limit st =
     (case st of (fs, s) \<Rightarrow>
        (case next_fault fs of
           (Some e, fs1) \<Rightarrow> ((fs1, s), Inl e)
         | (None, fs1) \<Rightarrow>
             (case claim_due now limit s of (s1, schedules) \<Rightarrow>
                (case deliver_all now schedules ((fs1, s1), \<lparr>sent = 0, failed = 0\<rparr>) of
                   (st2, Inl e) \<Rightarrow> (st2, Inl e)
                 | (st2, Inr c) \<Rightarrow>
                     (st2, Inr \<lparr>dr_picked = length schedules, dr_sent = sent c,
                                 dr_failed = failed c\<rparr>)))))"

section \<open>Notions used in the statements\<close>

text \<open>A sequence of planning calls, each with the clock reading it runs at.\<close>

datatype PlanningOp = PlanEvent int nat | RebuildUser int nat

fun planning_op :: "PlanningOp \<Rightarrow> db \<Rightarrow> db" where
  "planning_op (PlanEvent now eventId) s = fst (planNotificationsForEvent now eventId s)"
| "planning_op (RebuildUser now userId) s = fst (rebuildSchedulesForUser now userId s)"

fun run_planning :: "PlanningOp list \<Rightarrow> db \<Rightarrow> db" where
  "run_planning [] s = s"
| "run_planning (op # ops) s = run_planning ops (planning_op op s)"

text \<open>
  What identifies a schedule row across planning calls, and the rows that are \<open>SENT\<close>.
\<close>

definition row_identity ::
  "ScheduleRow \<Rightarrow> nat \<times> nat \<times> nat \<times> Channel \<times> Trigger \<times> nat \<times> jsstring" where
  "row_identity r = (ns_id r, ns_user_id r, ns_event_id r, ns_channel r, ns_trigger_type r,
                     ns_trigger_offset_minutes r, ns_dedupe_key r)"

definition sent_rows :: "db \<Rightarrow> ScheduleRow list" where
  "sent_rows s = filter (\<lambda>r. ns_status r = SENT) (notification_schedules s)"

definition skips :: "int \<Rightarrow> EventRow \<Rightarrow> RuleRow \<Rightarrow> bool" where
  "skips now event rule =
     (case computeScheduledAt now rule event of None \<Rightarrow> True
      | Some t \<Rightarrow> t < now - 5 * 60 * 1000)"

definition keys_of :: "db \<Rightarrow> jsstring set" where
  "keys_of s = ns_dedupe_key ` set (notification_schedules s)"

definition on_time_keys :: "int \<Rightarrow> EventRow \<Rightarrow> (nat \<times> RuleRow) list \<Rightarrow> jsstring set" where
  "on_time_keys now event pairs =
     (\<lambda>(u, rule). schedule_key u event rule) ` {p \<in> set pairs. \<not> skips now event (snd p)}"

definition row_wf :: "ScheduleRow \<Rightarrow> bool" where
  "row_wf r = (ns_dedupe_key r = makeDedupeKey (ns_user_id r) (ns_event_id r) (ns_channel r)
                 (ns_trigger_type r) (ns_trigger_offset_minutes r))"

definition plan_pairs :: "db \<Rightarrow> EventRow \<Rightarrow> nat option \<Rightarrow> (nat \<times> RuleRow) list" where
  "plan_pairs s e uo = groupedRulesByUser s e (getTargetUsersForRegion s (ev_region_id e) uo)"

definition plan_keys :: "int \<Rightarrow> EventRow \<Rightarrow> nat option \<Rightarrow> db \<Rightarrow> jsstring set" where
  "plan_keys now e uo s =
     (if ev_visibility e = PUBLIC then on_time_keys now e (plan_pairs s e uo) else {})"

definition terminal :: "ScheduleStatus \<Rightarrow> bool" where
  "terminal st = (st = SENT \<or> st = FAILED)"

definition set_status :: "int \<Rightarrow> nat \<Rightarrow> ScheduleStatus \<Rightarrow> ScheduleRow list \<Rightarrow> ScheduleRow list" where
  "set_status now i st rows =
     map (\<lambda>r. if ns_id r = i then r\<lparr>ns_status := st, ns_updated_at := now\<rparr> else r) rows"

definition log_row where
  "log_row now i res em rp = \<lparr>nd_schedule_id = i, nd_sent_at_utc = now, nd_result = res,
      nd_error_message = em, nd_response_payload = rp\<rparr>"

definition no_faults :: "faults \<Rightarrow> bool" where
  "no_faults fs = list_all (\<lambda>f. f = None) fs"

text \<open>How a mark ends, whatever it records.\<close>

definition threw_post :: "nat \<Rightarrow> faults \<Rightarrow> db \<Rightarrow> db \<Rightarrow> bool" where
  "threw_post i fs s s' =
     (\<not> no_faults fs \<and>
      (\<exists>new. s' = s\<lparr>notification_deliveries := notification_deliveries s @ new\<rparr>
             \<and> length new \<le> 1 \<and> (\<forall>d \<in> set new. nd_schedule_id d = i)))"

definition marked_post :: "int \<Rightarrow> nat \<Rightarrow> bool \<Rightarrow> faults \<Rightarrow> faults \<Rightarrow> db \<Rightarrow> db \<Rightarrow> bool" where
  "marked_post now i b fs fs' s s' =
     ((no_faults fs \<longrightarrow> no_faults fs') \<and>
      (\<exists>row. s' = s\<lparr>notification_deliveries := notification_deliveries s @ [row],
                     notification_schedules :=
                       set_status now i (if b then SENT else FAILED) (notification_schedules s)\<rparr>
             \<and> nd_schedule_id row = i \<and> (nd_result row = SUCCESS \<longleftrightarrow> b)))"

text \<open>One iteration that does not throw.\<close>

definition step_post :: "int \<Rightarrow> nat \<Rightarrow> faults \<Rightarrow> faults \<Rightarrow> db \<Rightarrow> db \<Rightarrow> DispatchCount \<Rightarrow> DispatchCount \<Rightarrow> bool" where
  "step_post now i fs fs' s s' c c' =
     (\<exists>new final.
        s' = s\<lparr>notification_deliveries := notification_deliveries s @ new,
               notification_schedules := set_status now i final (notification_schedules s)\<rparr>
      \<and> terminal final
      \<and> (length new = 1 \<or> length new = 2)
      \<and> (\<forall>d \<in> set new. nd_schedule_id d = i)
      \<and> (nd_result (last new) = SUCCESS \<longleftrightarrow> final = SENT)
      \<and> c' = (if final = SENT then c\<lparr>sent := sent c + 1\<rparr> else c\<lparr>failed := failed c + 1\<rparr>)
      \<and> (no_faults fs \<longrightarrow> no_faults fs' \<and> length new = 1))"

definition basis_date :: "int \<Rightarrow> RuleRow \<Rightarrow> EventRow \<Rightarrow> int option" where
  "basis_date now rule event =
     (case rule_trigger rule of
        ON_START \<Rightarrow> ev_start_at_utc event
      | ON_END \<Rightarrow> ev_end_at_utc event
      | BEFORE_END \<Rightarrow> ev_end_at_utc event
      | BEFORE_START \<Rightarrow> ev_start_at_utc event
      | ON_PUBLISH \<Rightarrow> Some (case ev_created_at event of Some c \<Rightarrow> c | None \<Rightarrow> now))"

definition row_shape :: "ScheduleRow \<Rightarrow> nat \<times> nat \<times> Channel \<times> Trigger \<times> nat" where
  "row_shape r = (ns_user_id r, ns_event_id r, ns_channel r, ns_trigger_type r,
                  ns_trigger_offset_minutes r)"

definition spec_confidence :: "number \<Rightarrow> number \<Rightarrow> nat \<Rightarrow> number" where
  "spec_confidence typeScore dateRangeScore summaryLength =
     min 1 (fadd (fadd (fadd (fl (35 / 100)) typeScore) dateRangeScore)
                 (if 20 < summaryLength then fl (1 / 10) else 0))"

definition first_is :: "'a list \<Rightarrow> 'a \<Rightarrow> bool" where
  "first_is xs x = (case xs of [] \<Rightarrow> False | y # _ \<Rightarrow> y = x)"

text \<open>A time of day: one or two digits, a colon, two digits.\<close>

definition time_text :: "jsstring \<Rightarrow> jsstring \<Rightarrow> jsstring" where
  "time_text h mi = h @ [58] @ mi"

definition digit_field :: "nat \<Rightarrow> nat \<Rightarrow> jsstring \<Rightarrow> bool" where
  "digit_field lo hi ds = (list_all is_digit ds \<and> lo \<le> length ds \<and> length ds \<le> hi)"

text \<open>A date and time: year, separator, month, separator, day, one space, time.\<close>

definition datetime_text :: "datetime_groups \<Rightarrow> nat \<Rightarrow> nat \<Rightarrow> jsstring" where
  "datetime_text g sep1 sep2 =
     (case g of (y, mo, d, h, mi) \<Rightarrow> y @ [sep1] @ mo @ [sep2] @ d @ [32] @ time_text h mi)"

definition datetime_fields :: "datetime_groups \<Rightarrow> bool" where
  "datetime_fields g =
     (case g of (y, mo, d, h, mi) \<Rightarrow>
        digit_field 4 4 y \<and> digit_field 1 2 mo \<and> digit_field 1 2 d \<and> digit_field 1 2 h
        \<and> digit_field 2 2 mi)"

text \<open>A full range: two such, with a range separator between single spaces.\<close>

definition range_text :: "datetime_groups \<Rightarrow> datetime_groups \<Rightarrow> nat \<Rightarrow> nat \<Rightarrow> jsstring" where
  "range_text a b dsep rsep =
     datetime_text a dsep dsep @ [32, rsep, 32] @ datetime_text b dsep dsep"

text \<open>The two halves of a date and time, neither with a space in it.\<close>

definition date_part :: "datetime_groups \<Rightarrow> nat \<Rightarrow> jsstring" where
  "date_part g sep = (case g of (y, mo, d, h, mi) \<Rightarrow> y @ [sep] @ mo @ [sep] @ d)"

definition time_part :: "datetime_groups \<Rightarrow> jsstring" where
  "time_part g = (case g of (y, mo, d, h, mi) \<Rightarrow> time_text h mi)"

definition days_in_month :: "nat \<Rightarrow> nat \<Rightarrow> nat" where
  "days_in_month year month =
     (if month = 2
      then (if year mod 4 = 0 \<and> (year mod 100 \<noteq> 0 \<or> year mod 400 = 0) then 29 else 28)
      else if month \<in> {4, 6, 9, 11} then 30 else 31)"

definition valid_datetime :: "datetime_groups \<Rightarrow> bool" where
  "valid_datetime g =
     (case g of (y, mo, d, h, mi) \<Rightarrow>
        1 \<le> digits_value mo \<and> digits_value mo \<le> 12
        \<and> 1 \<le> digits_value d \<and> digits_value d \<le> days_in_month (digits_value y) (digits_value mo)
        \<and> digits_value h \<le> 23 \<and> digits_value mi \<le> 59)"

definition civil_ms :: "datetime_groups \<Rightarrow> int" where
  "civil_ms g =
     (case g of (y, mo, d, h, mi) \<Rightarrow>
        days_from_civil (int (digits_value y)) (int (digits_value mo)) (int (digits_value d))
          * 86400000
        + int (digits_value h) * 3600000 + int (digits_value mi) * 60000)"

definition utc_iso :: "datetime_groups \<Rightarrow> int \<Rightarrow> jsstring" where
  "utc_iso g offset = toISOString (civil_ms g - offset * 60000)"

definition known_timezones :: "jsstring list" where
  "known_timezones = [asc ''Asia/Seoul'', asc ''Asia/Tokyo'', asc ''UTC'']"

definition fixed_offset :: "jsstring \<Rightarrow> int" where
  "fixed_offset timezone = (if timezone = asc ''UTC'' then 0 else 540)"


section \<open>Example states\<close>

text \<open>
  One event of region 1 starting at 1000000 ms, user 7 subscribed to the region with a
  global e-mail rule on the start of pickups, and one schedule row for that rule.
\<close>

definition ex_event :: "Visibility \<Rightarrow> EventRow" where
  "ex_event vis = \<lparr>ev_id = 1, ev_region_id = 1, ev_type = PICKUP, ev_title = asc ''Pickup'',
     ev_start_at_utc = Some 1000000, ev_end_at_utc = Some 2000000, ev_created_at = Some 0,
     ev_visibility = vis, ev_summary = None, ev_source_url = asc ''https://example.org/n/1'',
     ev_canonical_event_key = asc ''1-pickup-pickup-000000000000'', ev_confidence = 1,
     ev_updated_at = 0\<rparr>"

definition ex_rule :: RuleRow where
  "ex_rule = \<lparr>rule_id = 1, rule_user_id = 7, rule_scope = GLOBAL, rule_region_id = None,
     rule_event_type = PICKUP, rule_trigger = ON_START, rule_offset_minutes = None,
     rule_channel = EMAIL, rule_enabled = True\<rparr>"

definition ex_row :: "ScheduleStatus \<Rightarrow> ScheduleRow" where
  "ex_row st = \<lparr>ns_id = 1, ns_user_id = 7, ns_event_id = 1, ns_channel = EMAIL,
     ns_trigger_type = ON_START, ns_trigger_offset_minutes = 0, ns_scheduled_at_utc = 900000,
     ns_status = st,
     ns_payload_json = \<lparr>eventTitle = asc ''Old'', eventType = PICKUP, trigger = ON_START,
                        offsetMinutes = 0, channel = EMAIL\<rparr>,
     ns_dedupe_key = asc ''7:1:EMAIL:ON_START:0'', ns_created_at = 0, ns_updated_at = 0\<rparr>"

definition ex_db :: "Visibility \<Rightarrow> ScheduleStatus \<Rightarrow> db" where
  "ex_db vis st = \<lparr>events = [ex_event vis], notification_rules = [ex_rule],
     user_games = [\<lparr>ug_user_id = 7, ug_region_id = 1, ug_enabled = True\<rparr>],
     notification_schedules = [ex_row st], notification_schedules_id_seq = 1,
     notification_deliveries = [],
     users = [\<lparr>us_id = 7, us_email = Some (asc ''u7@example.org'')\<rparr>],
     push_subscriptions = [], events_id_seq = 1, raw_notices = [], raw_notices_id_seq = 0,
     event_raw_links = []\<rparr>"

definition ex_log :: DeliveryRow where
  "ex_log = \<lparr>nd_schedule_id = 1, nd_sent_at_utc = 400, nd_result = DELIVERY_FAILED,
     nd_error_message = Some (asc ''User email not available''),
     nd_response_payload = ChannelOnly EMAIL\<rparr>"

definition ex_db_logged :: "Visibility \<Rightarrow> ScheduleStatus \<Rightarrow> db" where
  "ex_db_logged vis st = (ex_db vis st)\<lparr>notification_deliveries := [ex_log]\<rparr>"

definition ex_engine :: engine where
  "ex_engine = \<lparr>toLowerCase = ascii_lower, sha256 = (\<lambda>s. s)\<rparr>"





definition ex_start :: datetime_groups where
  "ex_start = (asc ''2026'', asc ''03'', asc ''01'', asc ''10'', asc ''00'')"

definition ex_end :: datetime_groups where
  "ex_end = (asc ''2026'', asc ''03'', asc ''08'', asc ''11'', asc ''30'')"

definition ex_bad_start :: datetime_groups where
  "ex_bad_start = (asc ''2026'', asc ''13'', asc ''01'', asc ''10'', asc ''00'')"

definition ex_bad_end :: datetime_groups where
  "ex_bad_end = (asc ''2026'', asc ''14'', asc ''01'', asc ''10'', asc ''00'')"

lemmas ex_defs = ex_db_def ex_event_def ex_rule_def ex_row_def

lemmas plan_defs = planNotificationsForEvent_def getEvent_def purge_event_def purge_user_def delete_schedules_def
  planForEventAndUsers_def purgeable_def getTargetUsersForRegion_def groupedRulesByUser_def
  getEligibleRulesForEvent_def plan_rule_def computeScheduledAt_def toDate_def
  upsertSchedule_def schedule_key_def schedule_payload_def rule_offset_def makeDedupeKey_def
  asc_def dec.simps on_conflict_update_def rebuildSchedulesForUser_def rebuild_events_def
  rebuild_step_def

section \<open>Properties of planning\<close>

subsection \<open>Rows that are SENT\<close>

lemma on_conflict_update_sent_iff:
  "ns_status (on_conflict_update now t p r) = SENT \<longleftrightarrow> ns_status r = SENT"
  by (simp add: on_conflict_update_def)

lemma on_conflict_update_identity:
  "row_identity (on_conflict_update now t p r) = row_identity r"
  by (simp add: on_conflict_update_def row_identity_def)

lemma upsertSchedule_sent:
  "map row_identity (sent_rows (upsertSchedule now u e rule t s)) = map row_identity (sent_rows s)"
  by (auto simp: upsertSchedule_def sent_rows_def Let_def filter_map comp_def
        on_conflict_update_sent_iff on_conflict_update_identity intro!: filter_cong)

lemma plan_rule_sent:
  "map row_identity (sent_rows (fst (plan_rule now e acc ur))) = map row_identity (sent_rows (fst acc))"
  by (auto simp: plan_rule_def upsertSchedule_sent split: prod.splits option.splits)

lemma foldl_plan_rule_sent:
  "map row_identity (sent_rows (fst (foldl (plan_rule now e) acc urs)))
   = map row_identity (sent_rows (fst acc))"
  by (induction urs arbitrary: acc) (simp_all add: plan_rule_sent)

lemma purge_event_sent: "sent_rows (purge_event eid s) = sent_rows s"
  by (auto simp: purge_event_def delete_schedules_def sent_rows_def purgeable_def intro!: filter_cong)

lemma purge_user_sent: "sent_rows (purge_user uid s) = sent_rows s"
  by (auto simp: purge_user_def delete_schedules_def sent_rows_def purgeable_def intro!: filter_cong)

lemma planForEventAndUsers_sent:
  "map row_identity (sent_rows (fst (planForEventAndUsers now e uo s))) = map row_identity (sent_rows s)"
  by (simp add: planForEventAndUsers_def Let_def foldl_plan_rule_sent)

lemma planNotificationsForEvent_sent:
  "map row_identity (sent_rows (fst (planNotificationsForEvent now eid s)))
   = map row_identity (sent_rows s)"
proof (cases "getEvent s eid")
  case None
  then show ?thesis by (simp add: planNotificationsForEvent_def)
next
  case (Some e)
  then have "fst (planNotificationsForEvent now eid s)
             = fst (planForEventAndUsers now e None (purge_event eid s))"
    by (simp add: planNotificationsForEvent_def split: prod.splits)
  then show ?thesis by (simp add: planForEventAndUsers_sent purge_event_sent)
qed

lemma rebuild_step_sent:
  "map row_identity (sent_rows (fst (rebuild_step now u acc e)))
   = map row_identity (sent_rows (fst acc))"
proof -
  have "fst (rebuild_step now u acc e) = fst (planForEventAndUsers now e (Some u) (fst acc))"
    by (simp add: rebuild_step_def split: prod.splits)
  then show ?thesis by (simp add: planForEventAndUsers_sent)
qed

lemma foldl_rebuild_step_sent:
  "map row_identity (sent_rows (fst (foldl (rebuild_step now u) acc es)))
   = map row_identity (sent_rows (fst acc))"
  by (induction es arbitrary: acc) (simp_all add: rebuild_step_sent)

lemma rebuildSchedulesForUser_sent:
  "map row_identity (sent_rows (fst (rebuildSchedulesForUser now u s)))
   = map row_identity (sent_rows s)"
proof -
  have "fst (rebuildSchedulesForUser now u s)
        = fst (foldl (rebuild_step now u) (purge_user u s, \<lparr>planned = 0, skipped = 0\<rparr>)
                 (rebuild_events now u (purge_user u s)))"
    by (simp add: rebuildSchedulesForUser_def Let_def split: prod.splits)
  then show ?thesis by (simp add: foldl_rebuild_step_sent purge_user_sent)
qed

lemma planning_op_sent:
  "map row_identity (sent_rows (planning_op op s)) = map row_identity (sent_rows s)"
  by (cases op) (simp_all add: planNotificationsForEvent_sent rebuildSchedulesForUser_sent)

text \<open>
  C3. Whatever sequence of \<open>planNotificationsForEvent\<close> and \<open>rebuildSchedulesForUser\<close>
  calls runs, at whatever times, the rows that are \<open>SENT\<close> afterwards are exactly the rows
  that were \<open>SENT\<close> before, in the same order and with the same id, user, event, channel,
  trigger, offset and dedupe key: the purges delete none of them, the upsert leaves their
  status alone, and planning marks no other row \<open>SENT\<close>.
\<close>

theorem planning_preserves_sent:
  "map row_identity (sent_rows (run_planning ops s)) = map row_identity (sent_rows s)"
  by (induction ops arbitrary: s) (simp_all add: planning_op_sent)

theorem planning_preserves_sent_witness:
  "map row_identity (sent_rows
     (run_planning [PlanEvent 500 1, RebuildUser 600 7, PlanEvent 700 1] (ex_db PUBLIC SENT)))
   = [(1, 7, 1, EMAIL, ON_START, 0, asc ''7:1:EMAIL:ON_START:0'')]"
  using planning_preserves_sent
          [of "[PlanEvent 500 1, RebuildUser 600 7, PlanEvent 700 1]" "ex_db PUBLIC SENT"]
  by (simp add: sent_rows_def row_identity_def ex_defs)

subsection \<open>Events that are not PUBLIC\<close>

text \<open>
  C4, as the code has it. For an existing event that is not \<open>PUBLIC\<close>,
  \<open>planNotificationsForEvent\<close> creates and modifies no schedule row, but it does run
  its purge first: the schedule rows of that event whose status is \<open>PENDING\<close>,
  \<open>FAILED\<close> or \<open>CANCELED\<close> are deleted, and only those; every other schedule row is
  kept as it is, in its place. It reports nothing planned and nothing skipped.
\<close>

theorem plan_not_public_purges_only:
  assumes "getEvent s eventId = Some event" and "ev_visibility event \<noteq> PUBLIC"
  shows "notification_schedules (fst (planNotificationsForEvent now eventId s))
         = filter (\<lambda>r. \<not> (ns_event_id r = eventId
                         \<and> ns_status r \<in> {PENDING, FAILED, CANCELED}))
                  (notification_schedules s)
       \<and> snd (planNotificationsForEvent now eventId s) = (\<lparr>planned = 0, skipped = 0\<rparr>, ok)"
  using assms
  by (simp add: planNotificationsForEvent_def planForEventAndUsers_def purge_event_def
        delete_schedules_def purgeable_def)

theorem plan_not_public_purges_only_witness:
  "getEvent (ex_db HIDDEN PROCESSING) 1 = Some (ex_event HIDDEN)
   \<and> getEvent (ex_db HIDDEN FAILED) 1 = Some (ex_event HIDDEN)
   \<and> ev_visibility (ex_event HIDDEN) \<noteq> PUBLIC
   \<and> notification_schedules (fst (planNotificationsForEvent 500 1 (ex_db HIDDEN PROCESSING)))
       = [ex_row PROCESSING]
   \<and> notification_schedules (fst (planNotificationsForEvent 500 1 (ex_db HIDDEN FAILED))) = []
   \<and> snd (planNotificationsForEvent 500 1 (ex_db HIDDEN PROCESSING))
       = (\<lparr>planned = 0, skipped = 0\<rparr>, ok)
   \<and> snd (planNotificationsForEvent 500 1 (ex_db HIDDEN FAILED))
       = (\<lparr>planned = 0, skipped = 0\<rparr>, ok)"
proof -
  have h1: "getEvent (ex_db HIDDEN PROCESSING) 1 = Some (ex_event HIDDEN)"
    by (simp add: getEvent_def ex_defs)
  have h1': "getEvent (ex_db HIDDEN FAILED) 1 = Some (ex_event HIDDEN)"
    by (simp add: getEvent_def ex_defs)
  have h2: "ev_visibility (ex_event HIDDEN) \<noteq> PUBLIC"
    by (simp add: ex_defs)
  show ?thesis
    using h1 h1' h2 plan_not_public_purges_only [OF h1 h2, of 500]
      plan_not_public_purges_only [OF h1' h2, of 500]
    by (simp add: ex_defs)
qed

text \<open>
  The delete cascades: a purged schedule takes its delivery-log rows with it. Event 1 is
  \<open>NEED_REVIEW\<close>, its one schedule \<open>FAILED\<close> with one log row; after the call both
  tables are empty.
\<close>

lemma purge_cascades_to_log:
  "notification_deliveries (ex_db_logged NEED_REVIEW FAILED) = [ex_log]
   \<and> notification_schedules
        (fst (planNotificationsForEvent 500 1 (ex_db_logged NEED_REVIEW FAILED))) = []
   \<and> notification_deliveries
        (fst (planNotificationsForEvent 500 1 (ex_db_logged NEED_REVIEW FAILED))) = []"
  by (simp add: planNotificationsForEvent_def getEvent_def purge_event_def delete_schedules_def
        planForEventAndUsers_def purgeable_def ex_db_logged_def ex_log_def ex_defs)

text \<open>
  The claim as written fails: event 1 is \<open>NEED_REVIEW\<close> and has a \<open>PENDING\<close> row, and
  the call deletes the row.
\<close>

theorem plan_not_public_noop_counterexample:
  "getEvent (ex_db NEED_REVIEW PENDING) 1 = Some (ex_event NEED_REVIEW)
   \<and> ev_visibility (ex_event NEED_REVIEW) \<noteq> PUBLIC
   \<and> notification_schedules (ex_db NEED_REVIEW PENDING) = [ex_row PENDING]
   \<and> notification_schedules (fst (planNotificationsForEvent 500 1 (ex_db NEED_REVIEW PENDING))) = []"
  by (simp add: planNotificationsForEvent_def getEvent_def purge_event_def delete_schedules_def
        planForEventAndUsers_def purgeable_def ex_defs)

subsection \<open>What the upsert does to an existing row\<close>

lemma list_ex_key: "r \<in> set rows \<Longrightarrow> ns_dedupe_key r = k \<Longrightarrow> list_ex (\<lambda>r. ns_dedupe_key r = k) rows"
  by (auto simp: list_ex_iff)

text \<open>
  C10. When a row with the rule's dedupe key exists, \<open>upsertSchedule\<close> adds no row and
  rewrites that one: the new time and payload, and status \<open>PENDING\<close> unless the row was
  \<open>SENT\<close>, which it stays. So a \<open>PROCESSING\<close>, \<open>FAILED\<close> or \<open>CANCELED\<close> row becomes
  \<open>PENDING\<close>; and the purge that precedes planning keeps every \<open>PROCESSING\<close> row.
\<close>

theorem upsert_keeps_only_sent:
  assumes "r \<in> set (notification_schedules s)"
      and "ns_dedupe_key r = schedule_key userId event rule"
  shows "r\<lparr>ns_scheduled_at_utc := t,
            ns_payload_json := schedule_payload event rule,
            ns_status := (if ns_status r = SENT then SENT else PENDING),
            ns_updated_at := now\<rparr>
           \<in> set (notification_schedules (upsertSchedule now userId event rule t s))
         \<and> length (notification_schedules (upsertSchedule now userId event rule t s))
             = length (notification_schedules s)
         \<and> (ns_status r = PROCESSING \<longrightarrow>
                r \<in> set (notification_schedules (purge_event eventId s))
              \<and> r \<in> set (notification_schedules (purge_user uid s)))"
proof -
  let ?k = "schedule_key userId event rule"
  have ex: "list_ex (\<lambda>r. ns_dedupe_key r = ?k) (notification_schedules s)"
    using assms by (rule list_ex_key)
  have rows: "notification_schedules (upsertSchedule now userId event rule t s)
              = map (\<lambda>r. if ns_dedupe_key r = ?k
                         then on_conflict_update now t (schedule_payload event rule) r else r)
                    (notification_schedules s)"
    using ex by (simp add: upsertSchedule_def Let_def)
  have "on_conflict_update now t (schedule_payload event rule) r
        \<in> set (notification_schedules (upsertSchedule now userId event rule t s))"
    unfolding rows using assms by (auto simp: image_iff intro!: bexI[of _ r])
  moreover have "on_conflict_update now t (schedule_payload event rule) r
        = r\<lparr>ns_scheduled_at_utc := t, ns_payload_json := schedule_payload event rule,
            ns_status := (if ns_status r = SENT then SENT else PENDING), ns_updated_at := now\<rparr>"
    by (simp add: on_conflict_update_def)
  moreover have "length (notification_schedules (upsertSchedule now userId event rule t s))
                 = length (notification_schedules s)"
    unfolding rows by simp
  moreover have "ns_status r = PROCESSING \<longrightarrow>
                   r \<in> set (notification_schedules (purge_event eventId s))
                 \<and> r \<in> set (notification_schedules (purge_user uid s))"
    using assms(1) by (simp add: purge_event_def purge_user_def delete_schedules_def purgeable_def)
  ultimately show ?thesis by simp
qed

theorem upsert_keeps_only_sent_witness:
  "ex_row PROCESSING \<in> set (notification_schedules (ex_db PUBLIC PROCESSING))
   \<and> ns_dedupe_key (ex_row PROCESSING) = schedule_key 7 (ex_event PUBLIC) ex_rule
   \<and> (ex_row PENDING)\<lparr>ns_scheduled_at_utc := 1000000,
         ns_payload_json := schedule_payload (ex_event PUBLIC) ex_rule, ns_updated_at := 500\<rparr>
       \<in> set (notification_schedules
                (upsertSchedule 500 7 (ex_event PUBLIC) ex_rule 1000000 (ex_db PUBLIC PROCESSING)))
   \<and> ex_row PROCESSING \<in> set (notification_schedules (purge_event 1 (ex_db PUBLIC PROCESSING)))
   \<and> map ns_status (notification_schedules
         (fst (planNotificationsForEvent 500 1 (ex_db PUBLIC PROCESSING)))) = [PENDING]"
proof -
  have h1: "ex_row PROCESSING \<in> set (notification_schedules (ex_db PUBLIC PROCESSING))"
    by (simp add: ex_defs)
  have h2: "ns_dedupe_key (ex_row PROCESSING) = schedule_key 7 (ex_event PUBLIC) ex_rule"
    by (simp add: ex_defs plan_defs)
  have h3: "map ns_status (notification_schedules
         (fst (planNotificationsForEvent 500 1 (ex_db PUBLIC PROCESSING)))) = [PENDING]"
    by (simp add: ex_defs plan_defs)
  have h4: "(ex_row PROCESSING)\<lparr>ns_status := PENDING\<rparr> = ex_row PENDING"
    by (simp add: ex_defs)
  show ?thesis
    using h1 h2 h3 h4
      upsert_keeps_only_sent [OF h1 h2, where t = 1000000 and now = 500 and eventId = 1 and uid = 7]
    by (simp add: ex_row_def)
qed

subsection \<open>The dedupe key is injective\<close>

lemma dec_digit: "c \<in> set (dec n) \<Longrightarrow> 48 \<le> c \<and> c \<le> 57"
proof (induction n rule: dec.induct)
  case (1 n)
  show ?case
  proof (cases "n < 10")
    case True
    with "1.prems" show ?thesis by (simp add: dec.simps)
  next
    case False
    with "1.prems" have "c \<in> set (dec (n div 10)) \<or> c = 48 + n mod 10"
      by (subst (asm) dec.simps) auto
    with False "1.IH" show ?thesis by auto
  qed
qed

lemma digits_value_dec: "digits_value (dec n) = n"
proof (induction n rule: dec.induct)
  case (1 n)
  show ?case
  proof (cases "n < 10")
    case True
    then show ?thesis by (simp add: dec.simps digits_value_def)
  next
    case False
    then have "dec n = dec (n div 10) @ [48 + n mod 10]" by (subst dec.simps) simp
    with False "1.IH" show ?thesis by (simp add: digits_value_def)
  qed
qed

lemma dec_inj: "dec a = dec b \<Longrightarrow> a = b"
  by (metis digits_value_dec)

lemma dec_no_colon: "58 \<notin> set (dec n)"
  using dec_digit[of 58 n] by auto

lemma channel_str_no_colon: "58 \<notin> set (channel_str c)"
  by (cases c) (simp_all add: asc_def)

lemma trigger_str_no_colon: "58 \<notin> set (trigger_str t)"
  by (cases t) (simp_all add: asc_def)

lemma channel_str_inj: "channel_str a = channel_str b \<Longrightarrow> a = b"
  by (cases a; cases b) (simp_all add: asc_def)

lemma trigger_str_inj: "trigger_str a = trigger_str b \<Longrightarrow> a = b"
  by (cases a; cases b) (simp_all add: asc_def)

lemma split_at_colon:
  fixes a b :: jsstring
  assumes "58 \<notin> set a" "58 \<notin> set b" "a @ 58 # x = b @ 58 # y"
  shows "a = b \<and> x = y"
proof -
  have "takeWhile (\<lambda>c. c \<noteq> 58) (a @ 58 # x) = a" "takeWhile (\<lambda>c. c \<noteq> 58) (b @ 58 # y) = b"
    using assms(1,2) by (auto simp: takeWhile_tail)
  with assms(3) have "a = b" by simp
  with assms(3) show ?thesis by simp
qed

lemma makeDedupeKey_inj:
  assumes "makeDedupeKey u e c t n = makeDedupeKey u' e' c' t' n'"
  shows "u = u' \<and> e = e' \<and> c = c' \<and> t = t' \<and> n = n'"
proof -
  from assms have k: "dec u @ 58 # dec e @ 58 # channel_str c @ 58 # trigger_str t @ 58 # dec n
      = dec u' @ 58 # dec e' @ 58 # channel_str c' @ 58 # trigger_str t' @ 58 # dec n'"
    by (simp add: makeDedupeKey_def asc_def)
  from split_at_colon[OF dec_no_colon dec_no_colon k]
  have 1: "dec u = dec u'" and k1: "dec e @ 58 # channel_str c @ 58 # trigger_str t @ 58 # dec n
      = dec e' @ 58 # channel_str c' @ 58 # trigger_str t' @ 58 # dec n'" by simp_all
  from split_at_colon[OF dec_no_colon dec_no_colon k1]
  have 2: "dec e = dec e'" and k2: "channel_str c @ 58 # trigger_str t @ 58 # dec n
      = channel_str c' @ 58 # trigger_str t' @ 58 # dec n'" by simp_all
  from split_at_colon[OF channel_str_no_colon channel_str_no_colon k2]
  have 3: "channel_str c = channel_str c'" and k3: "trigger_str t @ 58 # dec n
      = trigger_str t' @ 58 # dec n'" by simp_all
  from split_at_colon[OF trigger_str_no_colon trigger_str_no_colon k3]
  have 4: "trigger_str t = trigger_str t'" and 5: "dec n = dec n'" by simp_all
  from 1 2 3 4 5 show ?thesis
    by (simp add: dec_inj channel_str_inj trigger_str_inj)
qed

subsection \<open>Keys written by a planning call\<close>

lemma same_key_same_skips:
  assumes "schedule_key u e r = schedule_key u' e r'"
  shows "skips now e r' = skips now e r"
proof -
  from assms have "rule_trigger r = rule_trigger r'" "rule_offset r = rule_offset r'"
    using makeDedupeKey_inj unfolding schedule_key_def by blast+
  then have "computeScheduledAt now r' e = computeScheduledAt now r e"
    by (simp add: computeScheduledAt_def rule_offset_def)
  then show ?thesis by (simp add: skips_def)
qed

lemma plan_rule_skip:
  "skips now event rule \<Longrightarrow>
   plan_rule now event (s, c) (u, rule) = (s, c\<lparr>skipped := skipped c + 1\<rparr>)"
  by (auto simp: plan_rule_def skips_def split: option.splits)

lemma plan_rule_on_time:
  "\<not> skips now event rule \<Longrightarrow>
   \<exists>t. computeScheduledAt now rule event = Some t \<and>
   plan_rule now event (s, c) (u, rule)
     = (upsertSchedule now u event rule t s, c\<lparr>planned := planned c + 1\<rparr>)"
  by (auto simp: plan_rule_def skips_def split: option.splits)

lemma on_conflict_update_key [simp]: "ns_dedupe_key (on_conflict_update now t p r) = ns_dedupe_key r"
  by (simp add: on_conflict_update_def)

lemma upsert_other_key:
  assumes "k \<noteq> schedule_key u e rule"
  shows "{r \<in> set (notification_schedules (upsertSchedule now u e rule t s)). ns_dedupe_key r = k}
       = {r \<in> set (notification_schedules s). ns_dedupe_key r = k}"
  using assms by (auto simp: upsertSchedule_def Let_def)

lemma upsert_key_list:
  "map ns_dedupe_key (notification_schedules (upsertSchedule now u e rule t s))
   = (if schedule_key u e rule \<in> keys_of s
      then map ns_dedupe_key (notification_schedules s)
      else map ns_dedupe_key (notification_schedules s) @ [schedule_key u e rule])"
proof -
  have "map ns_dedupe_key (map (\<lambda>r. if ns_dedupe_key r = k then on_conflict_update now t p r else r) rows)
        = map ns_dedupe_key rows" for k p rows
    by (induction rows) simp_all
  note m = this
  have "list_ex (\<lambda>r. ns_dedupe_key r = schedule_key u e rule) (notification_schedules s)
        \<longleftrightarrow> schedule_key u e rule \<in> keys_of s"
    unfolding keys_of_def list_ex_iff by (metis (mono_tags, lifting) image_iff)
  then show ?thesis
    by (simp add: upsertSchedule_def Let_def m)
qed

lemma upsert_keys: "keys_of (upsertSchedule now u e rule t s) = insert (schedule_key u e rule) (keys_of s)"
proof -
  have "keys_of (upsertSchedule now u e rule t s)
        = set (map ns_dedupe_key (notification_schedules (upsertSchedule now u e rule t s)))"
    by (simp add: keys_of_def)
  also have "\<dots> = insert (schedule_key u e rule) (keys_of s)"
    unfolding upsert_key_list by (auto simp: keys_of_def)
  finally show ?thesis .
qed

lemma upsert_frame:
  "events (upsertSchedule now u e rule t s) = events s"
  "notification_rules (upsertSchedule now u e rule t s) = notification_rules s"
  "user_games (upsertSchedule now u e rule t s) = user_games s"
  by (simp_all add: upsertSchedule_def Let_def)

lemma plan_rule_frame:
  "events (fst (plan_rule now e acc ur)) = events (fst acc)"
  "notification_rules (fst (plan_rule now e acc ur)) = notification_rules (fst acc)"
  "user_games (fst (plan_rule now e acc ur)) = user_games (fst acc)"
  by (auto simp: plan_rule_def upsert_frame split: prod.splits option.splits)

lemma foldl_plan_rule_frame:
  "events (fst (foldl (plan_rule now e) acc urs)) = events (fst acc)"
  "notification_rules (fst (foldl (plan_rule now e) acc urs)) = notification_rules (fst acc)"
  "user_games (fst (foldl (plan_rule now e) acc urs)) = user_games (fst acc)"
  by (induction urs arbitrary: acc) (simp_all add: plan_rule_frame)

lemma plan_rule_cases:
  "plan_rule now e (s, c) (u, rule) =
     (if skips now e rule then (s, c\<lparr>skipped := skipped c + 1\<rparr>)
      else (upsertSchedule now u e rule (the (computeScheduledAt now rule e)) s,
            c\<lparr>planned := planned c + 1\<rparr>))"
  by (auto simp: plan_rule_def skips_def split: option.splits)

lemma foldl_plan_rule_keys:
  "keys_of (fst (foldl (plan_rule now e) (s, c) pairs)) = keys_of s \<union> on_time_keys now e pairs"
proof (induction pairs arbitrary: s c)
  case Nil
  then show ?case by (simp add: on_time_keys_def)
next
  case (Cons p pairs)
  obtain u rule where p: "p = (u, rule)" by (cases p)
  show ?case
  proof (cases "skips now e rule")
    case True
    then show ?thesis using Cons.IH p
      by (auto simp: plan_rule_cases on_time_keys_def)
  next
    case False
    then show ?thesis using Cons.IH p
      by (auto simp: plan_rule_cases on_time_keys_def upsert_keys)
  qed
qed

lemma foldl_plan_rule_other_key:
  assumes "k \<notin> on_time_keys now e pairs"
  shows "{r \<in> set (notification_schedules (fst (foldl (plan_rule now e) (s, c) pairs))). ns_dedupe_key r = k}
       = {r \<in> set (notification_schedules s). ns_dedupe_key r = k}"
  using assms
proof (induction pairs arbitrary: s c)
  case Nil
  then show ?case by simp
next
  case (Cons p pairs)
  obtain u rule where p: "p = (u, rule)" by (cases p)
  have k': "k \<notin> on_time_keys now e pairs"
    using Cons.prems by (auto simp: on_time_keys_def)
  show ?case
  proof (cases "skips now e rule")
    case True
    then show ?thesis using Cons.IH[OF k'] p by (simp add: plan_rule_cases)
  next
    case False
    then have "k \<noteq> schedule_key u e rule"
      using Cons.prems p by (auto simp: on_time_keys_def)
    then show ?thesis using Cons.IH[OF k'] p False
      by (simp add: plan_rule_cases upsert_other_key)
  qed
qed

lemma foldl_plan_rule_counts:
  "snd (foldl (plan_rule now e) (s, c) pairs)
   = \<lparr>planned = planned c + length (filter (\<lambda>p. \<not> skips now e (snd p)) pairs),
      skipped = skipped c + length (filter (\<lambda>p. skips now e (snd p)) pairs)\<rparr>"
proof (induction pairs arbitrary: s c)
  case Nil
  then show ?case by simp
next
  case (Cons p pairs)
  obtain u rule where p: "p = (u, rule)" by (cases p)
  show ?case using Cons.IH p by (simp add: plan_rule_cases)
qed

lemma planForEventAndUsers_fold:
  "planForEventAndUsers now e uo s =
     (if ev_visibility e \<noteq> PUBLIC then (s, \<lparr>planned = 0, skipped = 0\<rparr>)
      else foldl (plan_rule now e) (s, \<lparr>planned = 0, skipped = 0\<rparr>)
             (groupedRulesByUser s e (getTargetUsersForRegion s (ev_region_id e) uo)))"
  by (simp add: planForEventAndUsers_def Let_def groupedRulesByUser_def)

lemma plan_pairs_cong:
  "notification_rules s' = notification_rules s \<Longrightarrow> user_games s' = user_games s \<Longrightarrow>
   plan_pairs s' e uo = plan_pairs s e uo"
  by (simp add: plan_pairs_def groupedRulesByUser_def getTargetUsersForRegion_def
        getEligibleRulesForEvent_def)

lemma purge_event_frame:
  "events (purge_event eid s) = events s"
  "notification_rules (purge_event eid s) = notification_rules s"
  "user_games (purge_event eid s) = user_games s"
  by (simp_all add: purge_event_def delete_schedules_def)

lemma planFor_frame:
  "events (fst (planForEventAndUsers now e uo s)) = events s"
  "notification_rules (fst (planForEventAndUsers now e uo s)) = notification_rules s"
  "user_games (fst (planForEventAndUsers now e uo s)) = user_games s"
  by (simp_all add: planForEventAndUsers_fold foldl_plan_rule_frame)

lemma planFor_keys:
  "keys_of (fst (planForEventAndUsers now e uo s)) = keys_of s \<union> plan_keys now e uo s"
  by (simp add: planForEventAndUsers_fold foldl_plan_rule_keys plan_keys_def plan_pairs_def)

lemma planFor_other_key:
  assumes "k \<notin> plan_keys now e uo s"
  shows "{r \<in> set (notification_schedules (fst (planForEventAndUsers now e uo s))). ns_dedupe_key r = k}
       = {r \<in> set (notification_schedules s). ns_dedupe_key r = k}"
proof (cases "ev_visibility e = PUBLIC")
  case True
  with assms have "k \<notin> on_time_keys now e (plan_pairs s e uo)" by (simp add: plan_keys_def)
  from foldl_plan_rule_other_key[OF this] True show ?thesis
    by (simp add: planForEventAndUsers_fold plan_pairs_def)
next
  case False
  then show ?thesis by (simp add: planForEventAndUsers_fold)
qed

lemma upsert_distinct:
  "distinct (map ns_dedupe_key (notification_schedules s)) \<Longrightarrow>
   distinct (map ns_dedupe_key (notification_schedules (upsertSchedule now u e rule t s)))"
  unfolding upsert_key_list by (auto simp: keys_of_def)

lemma foldl_plan_rule_distinct:
  "distinct (map ns_dedupe_key (notification_schedules s)) \<Longrightarrow>
   distinct (map ns_dedupe_key (notification_schedules (fst (foldl (plan_rule now e) (s, c) pairs))))"
proof (induction pairs arbitrary: s c)
  case Nil
  then show ?case by simp
next
  case (Cons p pairs)
  obtain u rule where p: "p = (u, rule)" by (cases p)
  show ?case using Cons p by (simp add: plan_rule_cases upsert_distinct)
qed

lemma planFor_distinct:
  "distinct (map ns_dedupe_key (notification_schedules s)) \<Longrightarrow>
   distinct (map ns_dedupe_key (notification_schedules (fst (planForEventAndUsers now e uo s))))"
  by (simp add: planForEventAndUsers_fold foldl_plan_rule_distinct)

lemma purge_event_distinct:
  "distinct (map ns_dedupe_key (notification_schedules s)) \<Longrightarrow>
   distinct (map ns_dedupe_key (notification_schedules (purge_event eid s)))"
  by (simp add: purge_event_def delete_schedules_def distinct_map_filter)

lemma upsert_wf:
  assumes "\<forall>r \<in> set (notification_schedules s). row_wf r"
  shows "\<forall>r \<in> set (notification_schedules (upsertSchedule now u e rule t s)). row_wf r"
  using assms
  by (auto simp: upsertSchedule_def Let_def row_wf_def on_conflict_update_def schedule_key_def)

lemma foldl_plan_rule_wf:
  "\<forall>r \<in> set (notification_schedules s). row_wf r \<Longrightarrow>
   \<forall>r \<in> set (notification_schedules (fst (foldl (plan_rule now e) (s, c) pairs))). row_wf r"
proof (induction pairs arbitrary: s c)
  case Nil
  then show ?case by simp
next
  case (Cons p pairs)
  obtain u rule where p: "p = (u, rule)" by (cases p)
  show ?case
  proof (cases "skips now e rule")
    case True
    then show ?thesis using Cons p by (simp add: plan_rule_cases)
  next
    case False
    then show ?thesis using Cons.IH[OF upsert_wf[OF Cons.prems]] p by (simp add: plan_rule_cases)
  qed
qed

lemma planFor_wf:
  "\<forall>r \<in> set (notification_schedules s). row_wf r \<Longrightarrow>
   \<forall>r \<in> set (notification_schedules (fst (planForEventAndUsers now e uo s))). row_wf r"
  using foldl_plan_rule_wf by (simp add: planForEventAndUsers_fold)

lemma purge_event_wf:
  "\<forall>r \<in> set (notification_schedules s). row_wf r \<Longrightarrow>
   \<forall>r \<in> set (notification_schedules (purge_event eid s)). row_wf r"
  by (simp add: purge_event_def delete_schedules_def)

lemma plan_fst:
  "getEvent s eid = Some e \<Longrightarrow>
   fst (planNotificationsForEvent now eid s) = fst (planForEventAndUsers now e None (purge_event eid s))"
  by (simp add: planNotificationsForEvent_def split: prod.splits)

lemma plan_getEvent:
  "getEvent (fst (planNotificationsForEvent now eid s)) eid' = getEvent s eid'"
proof (cases "getEvent s eid")
  case None
  then show ?thesis by (simp add: planNotificationsForEvent_def)
next
  case (Some e)
  then show ?thesis by (simp add: plan_fst getEvent_def planFor_frame purge_event_frame)
qed

lemma purge_event_rows:
  "r \<in> set (notification_schedules (purge_event eid s)) \<longleftrightarrow>
   r \<in> set (notification_schedules s) \<and> \<not> (ns_event_id r = eid \<and> purgeable (ns_status r))"
  by (auto simp: purge_event_def delete_schedules_def)

lemma plan_twice_keys:
  assumes ev: "getEvent s eid = Some e"
      and same: "plan_keys now2 e None s = plan_keys now1 e None s"
  shows "keys_of (fst (planNotificationsForEvent now2 eid (fst (planNotificationsForEvent now1 eid s))))
       = keys_of (fst (planNotificationsForEvent now1 eid s))"
proof -
  let ?s0 = "purge_event eid s"
  let ?s1 = "fst (planForEventAndUsers now1 e None ?s0)"
  let ?s0' = "purge_event eid ?s1"
  let ?s2 = "fst (planForEventAndUsers now2 e None ?s0')"
  let ?K = "plan_keys now1 e None s"
  have pk: "plan_keys now e None s' = plan_keys now e None s"
    if "notification_rules s' = notification_rules s" "user_games s' = user_games s" for s' now
    using plan_pairs_cong[OF that] by (simp add: plan_keys_def)
  have K0: "plan_keys now1 e None ?s0 = ?K" by (rule pk) (simp_all add: purge_event_frame)
  have K1: "plan_keys now2 e None ?s0' = ?K"
    using pk[of ?s0' now2] same by (simp add: purge_event_frame planFor_frame)
  have s1: "fst (planNotificationsForEvent now1 eid s) = ?s1" using ev by (rule plan_fst)
  have ev1: "getEvent ?s1 eid = Some e"
    using plan_getEvent[of now1 eid s eid] ev s1 by simp
  have s2: "fst (planNotificationsForEvent now2 eid ?s1) = ?s2" using ev1 by (rule plan_fst)
  have k1: "keys_of ?s1 = keys_of ?s0 \<union> ?K" using planFor_keys[of now1 e None ?s0] K0 by simp
  have k2: "keys_of ?s2 = keys_of ?s0' \<union> ?K" using planFor_keys[of now2 e None ?s0'] K1 by simp
  have sub: "keys_of ?s0' \<subseteq> keys_of ?s1"
    by (auto simp: keys_of_def purge_event_rows)
  have sup: "keys_of ?s1 \<subseteq> keys_of ?s0' \<union> ?K"
  proof
    fix k assume k: "k \<in> keys_of ?s1"
    show "k \<in> keys_of ?s0' \<union> ?K"
    proof (cases "k \<in> ?K")
      case True then show ?thesis by simp
    next
      case False
      from k obtain r where r: "r \<in> set (notification_schedules ?s1)" "ns_dedupe_key r = k"
        by (auto simp: keys_of_def)
      have "k \<notin> plan_keys now1 e None ?s0" using False K0 by simp
      from planFor_other_key[OF this] r have "r \<in> set (notification_schedules ?s0)" by blast
      then have "\<not> (ns_event_id r = eid \<and> purgeable (ns_status r))"
        by (simp add: purge_event_rows)
      with r(1) have "r \<in> set (notification_schedules ?s0')" by (simp add: purge_event_rows)
      with r(2) show ?thesis by (auto simp: keys_of_def)
    qed
  qed
  from k1 k2 sub sup have "keys_of ?s2 = keys_of ?s1" by blast
  then show ?thesis by (simp add: s1 s2)
qed

lemma plan_distinct:
  "distinct (map ns_dedupe_key (notification_schedules s)) \<Longrightarrow>
   distinct (map ns_dedupe_key (notification_schedules (fst (planNotificationsForEvent now eid s))))"
  by (cases "getEvent s eid")
     (simp_all add: plan_fst planFor_distinct purge_event_distinct, simp add: planNotificationsForEvent_def)

lemma plan_wf:
  assumes "\<forall>r \<in> set (notification_schedules s). row_wf r"
  shows "\<forall>r \<in> set (notification_schedules (fst (planNotificationsForEvent now eid s))). row_wf r"
proof (cases "getEvent s eid")
  case None
  with assms show ?thesis by (simp add: planNotificationsForEvent_def)
next
  case (Some e)
  from planFor_wf[OF purge_event_wf[OF assms]] Some show ?thesis by (simp add: plan_fst)
qed

lemma one_row_per_shape:
  assumes "distinct (map ns_dedupe_key rows)" "\<forall>r \<in> set rows. row_wf r"
      and "r1 \<in> set rows" "r2 \<in> set rows"
      and "ns_user_id r1 = ns_user_id r2" "ns_event_id r1 = ns_event_id r2"
          "ns_channel r1 = ns_channel r2" "ns_trigger_type r1 = ns_trigger_type r2"
          "ns_trigger_offset_minutes r1 = ns_trigger_offset_minutes r2"
  shows "r1 = r2"
proof -
  have "ns_dedupe_key r1 = ns_dedupe_key r2" using assms by (simp add: row_wf_def)
  moreover have "inj_on ns_dedupe_key (set rows)" using assms(1) by (simp add: distinct_map)
  ultimately show ?thesis using assms(3,4) by (auto dest: inj_onD)
qed

section \<open>Properties of dispatch\<close>

lemma next_fault_cases:
  obtains (ok) fs1 where "next_fault fs = (None, fs1)" "no_faults fs \<longrightarrow> no_faults fs1"
        | (err) e fs1 where "next_fault fs = (Some e, fs1)" "\<not> no_faults fs"
  by (cases fs; cases "hd fs") (auto simp: no_faults_def)

text \<open>The three ways a call of markScheduleResult can end.\<close>

lemma mark_cases:
  assumes "markScheduleResult now i res em rp (fs, s) = ((fs', s'), out)"
  obtains
    (threw_first) e where "out = Inl e" "s' = s" "\<not> no_faults fs"
  | (threw_second) e where "out = Inl e" "\<not> no_faults fs"
      "s' = s\<lparr>notification_deliveries := notification_deliveries s @ [log_row now i res em rp]\<rparr>"
  | (marked) "out = Inr ()" "no_faults fs \<longrightarrow> no_faults fs'"
      "s' = s\<lparr>notification_deliveries := notification_deliveries s @ [log_row now i res em rp],
             notification_schedules :=
               set_status now i (if res = SUCCESS then SENT else FAILED) (notification_schedules s)\<rparr>"
proof (cases fs rule: next_fault_cases)
  case (err e fs1)
  with assms have "out = Inl e" "s' = s" by (auto simp: markScheduleResult_def)
  with err show ?thesis using threw_first by blast
next
  case (ok fs1)
  show ?thesis
  proof (cases fs1 rule: next_fault_cases)
    case (err e fs2)
    with ok assms have "out = Inl e"
      "s' = s\<lparr>notification_deliveries := notification_deliveries s @ [log_row now i res em rp]\<rparr>"
      by (auto simp: markScheduleResult_def log_row_def Let_def)
    moreover have "\<not> no_faults fs" using ok err by auto
    ultimately show ?thesis using threw_second by blast
  next
    case ok2: (ok fs2)
    with ok assms have "out = Inr ()" "fs' = fs2"
      "s' = s\<lparr>notification_deliveries := notification_deliveries s @ [log_row now i res em rp],
             notification_schedules :=
               set_status now i (if res = SUCCESS then SENT else FAILED) (notification_schedules s)\<rparr>"
      by (auto simp: markScheduleResult_def log_row_def Let_def set_status_def)
    moreover have "no_faults fs \<longrightarrow> no_faults fs'" using ok ok2 \<open>fs' = fs2\<close> by auto
    ultimately show ?thesis using marked by blast
  qed
qed

lemma hasPushSubscription_cases:
  assumes "hasPushSubscription u (fs, s) = ((fs', s'), out)"
  shows "s' = s \<and> (case out of Inl e \<Rightarrow> \<not> no_faults fs | Inr b \<Rightarrow> no_faults fs \<longrightarrow> no_faults fs')"
  using assms by (cases fs rule: next_fault_cases) (auto simp: hasPushSubscription_def)

lemma hasEmail_cases:
  assumes "hasEmail u (fs, s) = ((fs', s'), out)"
  shows "s' = s \<and> (case out of Inl e \<Rightarrow> \<not> no_faults fs | Inr b \<Rightarrow> no_faults fs \<longrightarrow> no_faults fs')"
  using assms by (cases fs rule: next_fault_cases) (auto simp: hasEmail_def)

lemma mark_post:
  assumes "markScheduleResult now i res em rp (fs, s) = ((fs', s'), out)"
  shows "case out of Inl e \<Rightarrow> threw_post i fs s s'
         | Inr u \<Rightarrow> marked_post now i (res = SUCCESS) fs fs' s s'"
  using assms
proof (cases rule: mark_cases)
  case (threw_first e)
  then show ?thesis by (auto simp: threw_post_def intro!: exI[of _ "[]"])
next
  case (threw_second e)
  then show ?thesis
    by (auto simp: threw_post_def log_row_def intro!: exI[of _ "[log_row now i res em rp]"])
next
  case marked
  then show ?thesis
    by (auto simp: marked_post_def log_row_def intro!: exI[of _ "log_row now i res em rp"])
qed

lemma mark_failed_post:
  assumes "mark_failed now x msg (fs, s) = ((fs', s'), out)"
  shows "case out of Inl e \<Rightarrow> threw_post (ns_id x) fs s s'
         | Inr b \<Rightarrow> marked_post now (ns_id x) b fs fs' s s'"
proof -
  obtain fs1 s1 o1 where m: "markScheduleResult now (ns_id x) DELIVERY_FAILED (Some (asc msg))
             (ChannelOnly (ns_channel x)) (fs, s) = ((fs1, s1), o1)"
    by (metis surj_pair)
  from mark_post[OF m] m assms show ?thesis
    by (auto simp: mark_failed_def split: sum.splits)
qed

lemma mark_success_post:
  assumes "mark_success now x (fs, s) = ((fs', s'), out)"
  shows "case out of Inl e \<Rightarrow> threw_post (ns_id x) fs s s'
         | Inr b \<Rightarrow> marked_post now (ns_id x) b fs fs' s s'"
proof -
  obtain fs1 s1 o1 where m: "markScheduleResult now (ns_id x) SUCCESS None
             (Simulated (ns_channel x) now) (fs, s) = ((fs1, s1), o1)"
    by (metis surj_pair)
  from mark_post[OF m] m assms show ?thesis
    by (auto simp: mark_success_def split: sum.splits)
qed

lemma threw_post_weaken: "threw_post i fs1 s s' \<Longrightarrow> (no_faults fs \<longrightarrow> no_faults fs1) \<Longrightarrow> threw_post i fs s s'"
  by (auto simp: threw_post_def)

lemma marked_post_weaken:
  "marked_post now i b fs1 fs' s s' \<Longrightarrow> (no_faults fs \<longrightarrow> no_faults fs1) \<Longrightarrow> marked_post now i b fs fs' s s'"
  by (auto simp: marked_post_def)

lemma threw_post_refl: "\<not> no_faults fs \<Longrightarrow> threw_post i fs s s"
  by (auto simp: threw_post_def intro!: exI[of _ "[]"])

lemma try_deliver_post:
  assumes "try_deliver now x (fs, s) = ((fs', s'), out)"
  shows "case out of Inl e \<Rightarrow> threw_post (ns_id x) fs s s'
         | Inr b \<Rightarrow> marked_post now (ns_id x) b fs fs' s s'"
proof (cases "ns_channel x")
  case DISCORD
  with assms mark_failed_post[of now x _ fs s fs' s' out] show ?thesis
    by (simp add: try_deliver_def)
next
  case WEBPUSH
  obtain fs1 s1 o1 where h: "hasPushSubscription (ns_user_id x) (fs, s) = ((fs1, s1), o1)"
    by (metis surj_pair)
  note hc = hasPushSubscription_cases[OF h]
  show ?thesis
  proof (cases o1)
    case (Inl e)
    with h hc assms WEBPUSH show ?thesis by (auto simp: try_deliver_def threw_post_refl)
  next
    case (Inr available)
    with hc have step: "no_faults fs \<longrightarrow> no_faults fs1" and s1: "s1 = s" by auto
    show ?thesis
    proof (cases available)
      case True
      with Inr h assms WEBPUSH s1 have "mark_success now x (fs1, s) = ((fs', s'), out)"
        by (simp add: try_deliver_def)
      from mark_success_post[OF this] step show ?thesis
        by (auto split: sum.splits intro: threw_post_weaken marked_post_weaken)
    next
      case False
      with Inr h assms WEBPUSH s1
      have "mark_failed now x ''No push subscription for user'' (fs1, s) = ((fs', s'), out)"
        by (simp add: try_deliver_def)
      from mark_failed_post[OF this] step show ?thesis
        by (auto split: sum.splits intro: threw_post_weaken marked_post_weaken)
    qed
  qed
next
  case EMAIL
  obtain fs1 s1 o1 where h: "hasEmail (ns_user_id x) (fs, s) = ((fs1, s1), o1)"
    by (metis surj_pair)
  note hc = hasEmail_cases[OF h]
  show ?thesis
  proof (cases o1)
    case (Inl e)
    with h hc assms EMAIL show ?thesis by (auto simp: try_deliver_def threw_post_refl)
  next
    case (Inr available)
    with hc have step: "no_faults fs \<longrightarrow> no_faults fs1" and s1: "s1 = s" by auto
    show ?thesis
    proof (cases available)
      case True
      with Inr h assms EMAIL s1 have "mark_success now x (fs1, s) = ((fs', s'), out)"
        by (simp add: try_deliver_def)
      from mark_success_post[OF this] step show ?thesis
        by (auto split: sum.splits intro: threw_post_weaken marked_post_weaken)
    next
      case False
      with Inr h assms EMAIL s1
      have "mark_failed now x ''User email not available'' (fs1, s) = ((fs', s'), out)"
        by (simp add: try_deliver_def)
      from mark_failed_post[OF this] step show ?thesis
        by (auto split: sum.splits intro: threw_post_weaken marked_post_weaken)
    qed
  qed
qed

lemma deliver_one_post:
  assumes "deliver_one now x ((fs, s), c) = ((fs', s'), Inr c')"
  shows "step_post now (ns_id x) fs fs' s s' c c'"
proof -
  obtain fs1 s1 o1 where t: "try_deliver now x (fs, s) = ((fs1, s1), o1)"
    by (metis surj_pair)
  note tp = try_deliver_post[OF t]
  show ?thesis
  proof (cases o1)
    case (Inr b)
    with t assms have eq: "fs' = fs1" "s' = s1" and c': "c' = (if b then c\<lparr>sent := sent c + 1\<rparr> else c\<lparr>failed := failed c + 1\<rparr>)"
      by (auto simp: deliver_one_def split: bool.splits)
    from tp Inr eq obtain row where
        nf: "no_faults fs \<longrightarrow> no_faults fs'"
      and s': "s' = s\<lparr>notification_deliveries := notification_deliveries s @ [row],
                     notification_schedules :=
                       set_status now (ns_id x) (if b then SENT else FAILED) (notification_schedules s)\<rparr>"
      and row: "nd_schedule_id row = ns_id x" "nd_result row = SUCCESS \<longleftrightarrow> b"
      by (auto simp: marked_post_def)
    show ?thesis unfolding step_post_def
      by (rule exI[of _ "[row]"], rule exI[of _ "if b then SENT else FAILED"])
         (use nf s' row c' in \<open>auto simp: terminal_def\<close>)
  next
    case (Inl msg)
    obtain fs2 s2 o2 where m: "markScheduleResult now (ns_id x) DELIVERY_FAILED (Some msg)
                     (ChannelOnly (ns_channel x)) (fs1, s1) = ((fs2, s2), o2)"
      by (metis surj_pair)
    from Inl t m assms have eq: "fs' = fs2" "s' = s2" "o2 = Inr ()" and c': "c' = c\<lparr>failed := failed c + 1\<rparr>"
      by (auto simp: deliver_one_def split: sum.splits bool.splits)
    from tp Inl obtain new where
        nf: "\<not> no_faults fs"
      and s1: "s1 = s\<lparr>notification_deliveries := notification_deliveries s @ new\<rparr>"
      and new: "length new \<le> 1" "\<forall>d \<in> set new. nd_schedule_id d = ns_id x"
      by (auto simp: threw_post_def)
    from mark_post[OF m] eq obtain row where
        s2: "s2 = s1\<lparr>notification_deliveries := notification_deliveries s1 @ [row],
                     notification_schedules := set_status now (ns_id x) FAILED (notification_schedules s1)\<rparr>"
      and row: "nd_schedule_id row = ns_id x" "nd_result row \<noteq> SUCCESS"
      by (auto simp: marked_post_def)
    have len: "length (new @ [row]) = 1 \<or> length (new @ [row]) = 2"
      using new(1) by (cases new) auto
    show ?thesis unfolding step_post_def
      by (rule exI[of _ "new @ [row]"], rule exI[of _ FAILED])
         (use nf s1 s2 eq new row c' len in \<open>auto simp: terminal_def\<close>)
  qed
qed

lemma deliver_all_rule:
  assumes "deliver_all now xs ((fs, s), c) = ((fs', s'), Inr c')"
      and base: "\<And>fs s c. Q [] fs fs s s c c"
      and step: "\<And>x xs fs fs1 fs' s s1 s' c c1 c'.
                   step_post now (ns_id x) fs fs1 s s1 c c1 \<Longrightarrow> Q xs fs1 fs' s1 s' c1 c'
                   \<Longrightarrow> Q (x # xs) fs fs' s s' c c'"
  shows "Q xs fs fs' s s' c c'"
  using assms(1)
proof (induction xs arbitrary: fs s c)
  case Nil
  then show ?case using base by simp
next
  case (Cons x xs)
  obtain fs1 s1 o1 where d: "deliver_one now x ((fs, s), c) = ((fs1, s1), o1)"
    by (metis surj_pair)
  with Cons.prems obtain c1 where o1: "o1 = Inr c1"
    and rest: "deliver_all now xs ((fs1, s1), c1) = ((fs', s'), Inr c')"
    by (cases o1) auto
  from deliver_one_post[OF d[unfolded o1]] Cons.IH[OF rest] show ?case by (rule step)
qed

lemma set_status_ids [simp]: "map ns_id (set_status now i st rows) = map ns_id rows"
  by (induction rows) (simp_all add: set_status_def)

lemma set_status_row:
  "r' \<in> set (set_status now i st rows) \<Longrightarrow>
   (ns_id r' = i \<and> ns_status r' = st) \<or> (ns_id r' \<noteq> i \<and> r' \<in> set rows)"
  by (auto simp: set_status_def)

lemma deliver_all_counts:
  assumes "deliver_all now xs ((fs, s), c) = ((fs', s'), Inr c')"
  shows "sent c' + failed c' = sent c + failed c + length xs"
  by (rule deliver_all_rule[OF assms,
        where Q = "\<lambda>xs fs fs' s s' c c'. sent c' + failed c' = sent c + failed c + length xs"])
     (auto simp: step_post_def)

lemma deliver_all_ids:
  assumes "deliver_all now xs ((fs, s), c) = ((fs', s'), Inr c')"
  shows "map ns_id (notification_schedules s') = map ns_id (notification_schedules s)"
  by (rule deliver_all_rule[OF assms,
        where Q = "\<lambda>xs fs fs' s s' c c'.
                    map ns_id (notification_schedules s') = map ns_id (notification_schedules s)"])
     (auto simp: step_post_def)

lemma deliver_all_frame:
  assumes "deliver_all now xs ((fs, s), c) = ((fs', s'), Inr c')"
  shows "s'\<lparr>notification_deliveries := notification_deliveries s,
            notification_schedules := notification_schedules s\<rparr> = s"
proof (rule deliver_all_rule[OF assms,
        where Q = "\<lambda>xs fs fs' s s' c c'.
                    s'\<lparr>notification_deliveries := notification_deliveries s,
                       notification_schedules := notification_schedules s\<rparr> = s"], goal_cases)
  case (1 fs s c)
  then show ?case by simp
next
  case (2 x xs fs fs1 fs' s s1 s' c c1 c')
  from 2(1) obtain new final where s1:
    "s1 = s\<lparr>notification_deliveries := notification_deliveries s @ new,
           notification_schedules := set_status now (ns_id x) final (notification_schedules s)\<rparr>"
    by (auto simp: step_post_def)
  from 2(2) have "(s'\<lparr>notification_deliveries := notification_deliveries s1,
            notification_schedules := notification_schedules s1\<rparr>)
              \<lparr>notification_deliveries := notification_deliveries s,
               notification_schedules := notification_schedules s\<rparr>
        = s1\<lparr>notification_deliveries := notification_deliveries s,
               notification_schedules := notification_schedules s\<rparr>"
    by simp
  then show ?case by (simp add: s1)
qed

lemma deliver_all_terminal:
  assumes "deliver_all now xs ((fs, s), c) = ((fs', s'), Inr c')"
  shows "(\<forall>r' \<in> set (notification_schedules s').
            ns_id r' \<in> ns_id ` set xs \<longrightarrow> terminal (ns_status r'))
       \<and> (\<forall>r' \<in> set (notification_schedules s').
            terminal (ns_status r')
            \<or> (\<exists>r \<in> set (notification_schedules s). ns_id r = ns_id r' \<and> ns_status r = ns_status r'))"
proof (rule deliver_all_rule[OF assms,
        where Q = "\<lambda>xs fs fs' s s' c c'.
          (\<forall>r' \<in> set (notification_schedules s').
            ns_id r' \<in> ns_id ` set xs \<longrightarrow> terminal (ns_status r'))
       \<and> (\<forall>r' \<in> set (notification_schedules s').
            terminal (ns_status r')
            \<or> (\<exists>r \<in> set (notification_schedules s). ns_id r = ns_id r' \<and> ns_status r = ns_status r'))"],
      goal_cases)
  case (1 fs s c)
  then show ?case by auto
next
  case (2 x xs fs fs1 fs' s s1 s' c c1 c')
  note tl = 2(2)
  from 2(1) obtain final where s1: "notification_schedules s1
        = set_status now (ns_id x) final (notification_schedules s)" and fin: "terminal final"
    by (auto simp: step_post_def)
  have prev: "terminal (ns_status r') \<or>
        (\<exists>r \<in> set (notification_schedules s). ns_id r = ns_id r' \<and> ns_status r = ns_status r'
              \<and> ns_id r' \<noteq> ns_id x)"
    if "r' \<in> set (notification_schedules s')" for r'
  proof -
    from tl that consider "terminal (ns_status r')"
      | r1 where "r1 \<in> set (notification_schedules s1)" "ns_id r1 = ns_id r'" "ns_status r1 = ns_status r'"
      by blast
    then show ?thesis
    proof cases
      case 1 then show ?thesis by simp
    next
      case 2
      from set_status_row[OF 2(1)[unfolded s1]] 2(2,3) fin show ?thesis by auto
    qed
  qed
  show ?case
  proof (intro conjI ballI impI)
    fix r' assume r': "r' \<in> set (notification_schedules s')" and "ns_id r' \<in> ns_id ` set (x # xs)"
    then consider "ns_id r' = ns_id x" | "ns_id r' \<in> ns_id ` set xs" by auto
    then show "terminal (ns_status r')"
    proof cases
      case 1 with prev[OF r'] show ?thesis by auto
    next
      case 2 with tl r' show ?thesis by blast
    qed
  next
    fix r' assume "r' \<in> set (notification_schedules s')"
    from prev[OF this] show "terminal (ns_status r')
            \<or> (\<exists>r \<in> set (notification_schedules s). ns_id r = ns_id r' \<and> ns_status r = ns_status r')"
      by blast
  qed
qed

lemma deliver_all_log:
  assumes "deliver_all now xs ((fs, s), c) = ((fs', s'), Inr c')"
  shows "\<exists>ns. length ns = length xs \<and> (\<forall>n \<in> set ns. n = 1 \<or> n = 2)
            \<and> map nd_schedule_id (notification_deliveries s')
              = map nd_schedule_id (notification_deliveries s)
                @ concat (map2 replicate ns (map ns_id xs))"
proof (rule deliver_all_rule[OF assms,
        where Q = "\<lambda>xs fs fs' s s' c c'.
          \<exists>ns. length ns = length xs \<and> (\<forall>n \<in> set ns. n = 1 \<or> n = 2)
            \<and> map nd_schedule_id (notification_deliveries s')
              = map nd_schedule_id (notification_deliveries s)
                @ concat (map2 replicate ns (map ns_id xs))"], goal_cases)
  case (1 fs s c)
  then show ?case by simp
next
  case (2 x xs fs fs1 fs' s s1 s' c c1 c')
  from 2(1) obtain new where new: "notification_deliveries s1 = notification_deliveries s @ new"
      "length new = 1 \<or> length new = 2" "\<forall>d \<in> set new. nd_schedule_id d = ns_id x"
    by (auto simp: step_post_def)
  from new(3) have rep: "map nd_schedule_id new = replicate (length new) (ns_id x)"
    by (induction new) auto
  from 2(2) obtain ns where ns: "length ns = length xs" "\<forall>n \<in> set ns. n = 1 \<or> n = 2"
      "map nd_schedule_id (notification_deliveries s')
              = map nd_schedule_id (notification_deliveries s1)
                @ concat (map2 replicate ns (map ns_id xs))" by blast
  show ?case
    by (rule exI[of _ "length new # ns"]) (use new ns rep in auto)
qed

lemma deliver_all_no_faults:
  assumes "deliver_all now xs ((fs, s), c) = ((fs', s'), Inr c')"
  shows "no_faults fs \<longrightarrow>
          (\<exists>new. notification_deliveries s' = notification_deliveries s @ new
              \<and> map nd_schedule_id new = map ns_id xs
              \<and> sent c' = sent c + length (filter (\<lambda>d. nd_result d = SUCCESS) new)
              \<and> failed c' = failed c + length (filter (\<lambda>d. nd_result d = DELIVERY_FAILED) new))
          \<and> no_faults fs'"
proof (rule deliver_all_rule[OF assms,
        where Q = "\<lambda>xs fs fs' s s' c c'. no_faults fs \<longrightarrow>
          (\<exists>new. notification_deliveries s' = notification_deliveries s @ new
              \<and> map nd_schedule_id new = map ns_id xs
              \<and> sent c' = sent c + length (filter (\<lambda>d. nd_result d = SUCCESS) new)
              \<and> failed c' = failed c + length (filter (\<lambda>d. nd_result d = DELIVERY_FAILED) new))
          \<and> no_faults fs'"], goal_cases)
  case (1 fs s c)
  then show ?case by simp
next
  case (2 x xs fs fs1 fs' s s1 s' c c1 c')
  show ?case
  proof
    assume nf: "no_faults fs"
    with 2(1) obtain d final where d: "notification_deliveries s1 = notification_deliveries s @ [d]"
        "nd_schedule_id d = ns_id x" "nd_result d = SUCCESS \<longleftrightarrow> final = SENT"
        "c1 = (if final = SENT then c\<lparr>sent := sent c + 1\<rparr> else c\<lparr>failed := failed c + 1\<rparr>)"
        "no_faults fs1"
      unfolding step_post_def
      by (auto simp: length_Suc_conv)
    with 2(2) obtain new where new: "notification_deliveries s' = notification_deliveries s1 @ new"
        "map nd_schedule_id new = map ns_id xs"
        "sent c' = sent c1 + length (filter (\<lambda>d. nd_result d = SUCCESS) new)"
        "failed c' = failed c1 + length (filter (\<lambda>d. nd_result d = DELIVERY_FAILED) new)"
        "no_faults fs'" by blast
    have res: "nd_result d = DELIVERY_FAILED \<longleftrightarrow> nd_result d \<noteq> SUCCESS"
      by (cases "nd_result d") auto
    show "(\<exists>new. notification_deliveries s' = notification_deliveries s @ new
              \<and> map nd_schedule_id new = map ns_id (x # xs)
              \<and> sent c' = sent c + length (filter (\<lambda>d. nd_result d = SUCCESS) new)
              \<and> failed c' = failed c + length (filter (\<lambda>d. nd_result d = DELIVERY_FAILED) new))
          \<and> no_faults fs'"
      by (intro conjI exI[of _ "d # new"]) (use d new res in auto)
  qed
qed

lemma claim_id [simp]: "ns_id (claim now r) = ns_id r"
  by (simp add: claim_def)

lemma claim_due_ids:
  "map ns_id (notification_schedules (fst (claim_due now limit s))) = map ns_id (notification_schedules s)"
  by (simp add: claim_due_def Let_def comp_def)

lemma claim_due_returned:
  "map ns_id (snd (claim_due now limit s)) = map ns_id (due_schedules now limit s)"
  by (simp add: claim_due_def Let_def comp_def)

lemma claim_due_frame:
  "(fst (claim_due now limit s))\<lparr>notification_schedules := notification_schedules s\<rparr> = s"
  "notification_deliveries (fst (claim_due now limit s)) = notification_deliveries s"
  by (simp_all add: claim_due_def Let_def)

text \<open>
  What every returning call of \<open>dispatchDueNotifications\<close> does, storage faults
  included: \<open>picked\<close> is the number of schedules it claimed and equals
  \<open>sent + failed\<close>; no row was added to or removed from the schedule table, and every
  row with a claimed id is \<open>SENT\<close> or \<open>FAILED\<close>; the delivery log grew, in claim order,
  by rows of the claimed schedules only, one or two for each. When no storage call fails
  it is exactly one row each, \<open>sent\<close> of them \<open>SUCCESS\<close> and \<open>failed\<close> of them
  \<open>FAILED\<close>.
\<close>

lemma dispatch_settles_claimed:
  assumes "dispatchDueNotifications now limit (fs, s) = ((fs', s'), Inr res)"
  shows "dr_picked res = length (due_schedules now limit s)
       \<and> dr_picked res = dr_sent res + dr_failed res
       \<and> map ns_id (notification_schedules s') = map ns_id (notification_schedules s)
       \<and> (\<forall>r \<in> set (notification_schedules s').
            ns_id r \<in> ns_id ` set (due_schedules now limit s)
            \<longrightarrow> ns_status r = SENT \<or> ns_status r = FAILED)
       \<and> (\<exists>ns. length ns = dr_picked res \<and> (\<forall>n \<in> set ns. n = 1 \<or> n = 2)
              \<and> map nd_schedule_id (notification_deliveries s')
                = map nd_schedule_id (notification_deliveries s)
                  @ concat (map2 replicate ns (map ns_id (due_schedules now limit s))))
       \<and> (no_faults fs \<longrightarrow>
            (\<exists>new. notification_deliveries s' = notification_deliveries s @ new
               \<and> map nd_schedule_id new = map ns_id (due_schedules now limit s)
               \<and> dr_sent res = length (filter (\<lambda>d. nd_result d = SUCCESS) new)
               \<and> dr_failed res = length (filter (\<lambda>d. nd_result d = DELIVERY_FAILED) new)))"
proof -
  obtain s1 xs where cl: "claim_due now limit s = (s1, xs)" by (metis surj_pair)
  have ids: "map ns_id xs = map ns_id (due_schedules now limit s)"
    using claim_due_returned[of now limit s] cl by simp
  then have len: "length xs = length (due_schedules now limit s)"
    by (metis length_map)
  have ids_set: "ns_id ` set xs = ns_id ` set (due_schedules now limit s)"
    using ids by (metis list.set_map)
  have s1_ids: "map ns_id (notification_schedules s1) = map ns_id (notification_schedules s)"
    using claim_due_ids[of now limit s] cl by simp
  have s1_log: "notification_deliveries s1 = notification_deliveries s"
    using claim_due_frame(2)[of now limit s] cl by simp
  obtain fs1 where nf: "next_fault fs = (None, fs1)" and nf1: "no_faults fs \<longrightarrow> no_faults fs1"
    using assms by (cases fs rule: next_fault_cases) (auto simp: dispatchDueNotifications_def)
  from assms nf cl obtain c where
       run: "deliver_all now xs ((fs1, s1), \<lparr>sent = 0, failed = 0\<rparr>) = ((fs', s'), Inr c)"
   and res: "res = \<lparr>dr_picked = length xs, dr_sent = sent c, dr_failed = failed c\<rparr>"
    by (auto simp: dispatchDueNotifications_def split: prod.splits sum.splits)
  note counts = deliver_all_counts[OF run]
   and keep = deliver_all_ids[OF run]
   and settled = deliver_all_terminal[OF run]
   and log = deliver_all_log[OF run]
   and clean = deliver_all_no_faults[OF run]
  have 1: "dr_picked res = length (due_schedules now limit s)" using res len by simp
  have 2: "dr_picked res = dr_sent res + dr_failed res" using res counts by simp
  have 3: "map ns_id (notification_schedules s') = map ns_id (notification_schedules s)"
    using keep s1_ids by simp
  have 4: "\<forall>r \<in> set (notification_schedules s').
            ns_id r \<in> ns_id ` set (due_schedules now limit s)
            \<longrightarrow> ns_status r = SENT \<or> ns_status r = FAILED"
    using settled ids_set by (auto simp: terminal_def)
  have 5: "\<exists>ns. length ns = dr_picked res \<and> (\<forall>n \<in> set ns. n = 1 \<or> n = 2)
              \<and> map nd_schedule_id (notification_deliveries s')
                = map nd_schedule_id (notification_deliveries s)
                  @ concat (map2 replicate ns (map ns_id (due_schedules now limit s)))"
    using log ids s1_log res by simp
  have 6: "no_faults fs \<longrightarrow>
            (\<exists>new. notification_deliveries s' = notification_deliveries s @ new
               \<and> map nd_schedule_id new = map ns_id (due_schedules now limit s)
               \<and> dr_sent res = length (filter (\<lambda>d. nd_result d = SUCCESS) new)
               \<and> dr_failed res = length (filter (\<lambda>d. nd_result d = DELIVERY_FAILED) new))"
    using clean nf1 ids s1_log res by simp
  from 1 2 3 4 5 6 show ?thesis by blast
qed

section \<open>Skipped rules and repeated planning\<close>

lemma computeScheduledAt_None_iff:
  "computeScheduledAt now rule event = None \<longleftrightarrow> basis_date now rule event = None"
  by (cases "rule_trigger rule")
     (auto simp: computeScheduledAt_def basis_date_def toDate_def Let_def split: option.splits)

lemma skipped_key_not_planned:
  assumes "(u, rule) \<in> set (plan_pairs s event uo)" "skips now event rule"
  shows "schedule_key u event rule \<notin> plan_keys now event uo s"
proof
  assume "schedule_key u event rule \<in> plan_keys now event uo s"
  then obtain u' rule' where "\<not> skips now event rule'"
      "schedule_key u event rule = schedule_key u' event rule'"
    by (auto simp: plan_keys_def on_time_keys_def split: if_splits)
  with same_key_same_skips[of u event rule u' rule' now] assms(2) show False by simp
qed

text \<open>
  C9. Planning a \<open>PUBLIC\<close> event visits every pair of a target user and an eligible rule.
  A rule is skipped exactly when its basis date is null or its computed time lies more
  than five minutes before the clock reading. The call reports as \<open>skipped\<close> the number
  of such pairs and as \<open>planned\<close> the number of the others; the iteration of a skipped
  pair only adds one to \<open>skipped\<close> and leaves the store as it is; and after the whole
  call the rows under the dedupe key of a skipped pair are the rows that were there
  before: none created, none updated.
\<close>

theorem late_and_dateless_rules_are_skipped:
  assumes "ev_visibility event = PUBLIC"
  shows "snd (planForEventAndUsers now event uo s)
           = \<lparr>planned = length (filter (\<lambda>p. \<not> skips now event (snd p)) (plan_pairs s event uo)),
              skipped = length (filter (\<lambda>p. skips now event (snd p)) (plan_pairs s event uo))\<rparr>
       \<and> (\<forall>(u, rule) \<in> set (plan_pairs s event uo).
            (skips now event rule \<longleftrightarrow>
               basis_date now rule event = None
               \<or> (\<exists>t. computeScheduledAt now rule event = Some t \<and> t < now - 5 * 60 * 1000))
          \<and> (skips now event rule \<longrightarrow>
                (\<forall>s0 c. plan_rule now event (s0, c) (u, rule) = (s0, c\<lparr>skipped := skipped c + 1\<rparr>))
              \<and> {r \<in> set (notification_schedules (fst (planForEventAndUsers now event uo s))).
                     ns_dedupe_key r = schedule_key u event rule}
                = {r \<in> set (notification_schedules s). ns_dedupe_key r = schedule_key u event rule}))"
proof (intro conjI ballI)
  show "snd (planForEventAndUsers now event uo s)
           = \<lparr>planned = length (filter (\<lambda>p. \<not> skips now event (snd p)) (plan_pairs s event uo)),
              skipped = length (filter (\<lambda>p. skips now event (snd p)) (plan_pairs s event uo))\<rparr>"
    using assms foldl_plan_rule_counts[of now event s "\<lparr>planned = 0, skipped = 0\<rparr>" "plan_pairs s event uo"]
    by (simp add: planForEventAndUsers_fold plan_pairs_def)
next
  fix p assume p: "p \<in> set (plan_pairs s event uo)"
  obtain u rule where pr: "p = (u, rule)" by (cases p)
  have a: "skips now event rule \<longleftrightarrow>
               basis_date now rule event = None
               \<or> (\<exists>t. computeScheduledAt now rule event = Some t \<and> t < now - 5 * 60 * 1000)"
    using computeScheduledAt_None_iff[of now rule event]
    by (auto simp: skips_def split: option.splits)
  have b: "skips now event rule \<longrightarrow>
                (\<forall>s0 c. plan_rule now event (s0, c) (u, rule) = (s0, c\<lparr>skipped := skipped c + 1\<rparr>))
              \<and> {r \<in> set (notification_schedules (fst (planForEventAndUsers now event uo s))).
                     ns_dedupe_key r = schedule_key u event rule}
                = {r \<in> set (notification_schedules s). ns_dedupe_key r = schedule_key u event rule}"
  proof
    assume sk: "skips now event rule"
    from skipped_key_not_planned[OF p[unfolded pr] sk]
    have "{r \<in> set (notification_schedules (fst (planForEventAndUsers now event uo s))).
                     ns_dedupe_key r = schedule_key u event rule}
                = {r \<in> set (notification_schedules s). ns_dedupe_key r = schedule_key u event rule}"
      by (rule planFor_other_key)
    with sk show "(\<forall>s0 c. plan_rule now event (s0, c) (u, rule) = (s0, c\<lparr>skipped := skipped c + 1\<rparr>))
              \<and> {r \<in> set (notification_schedules (fst (planForEventAndUsers now event uo s))).
                     ns_dedupe_key r = schedule_key u event rule}
                = {r \<in> set (notification_schedules s). ns_dedupe_key r = schedule_key u event rule}"
      by (simp add: plan_rule_skip)
  qed
  from a b pr show "case p of (u, rule) \<Rightarrow>
            (skips now event rule \<longleftrightarrow>
               basis_date now rule event = None
               \<or> (\<exists>t. computeScheduledAt now rule event = Some t \<and> t < now - 5 * 60 * 1000))
          \<and> (skips now event rule \<longrightarrow>
                (\<forall>s0 c. plan_rule now event (s0, c) (u, rule) = (s0, c\<lparr>skipped := skipped c + 1\<rparr>))
              \<and> {r \<in> set (notification_schedules (fst (planForEventAndUsers now event uo s))).
                     ns_dedupe_key r = schedule_key u event rule}
                = {r \<in> set (notification_schedules s). ns_dedupe_key r = schedule_key u event rule})"
    by simp
qed

text \<open>
  C5, as the code has it. Two successive calls of \<open>planNotificationsForEvent\<close> for a
  \<open>PUBLIC\<close> event, with the same rules, subscriptions and event data, leave the same set
  of dedupe keys after the second call as after the first, provided no rule crosses the
  five-minute lateness cutoff between the two clock readings (as when both calls read the
  same instant). Starting from a table whose keys are distinct and are the keys of their
  rows' own columns, the keys stay distinct, so no two rows share a
  (user, event, channel, trigger, offset).
\<close>

theorem plan_twice_same_keys:
  assumes "getEvent s eventId = Some event"
      and "ev_visibility event = PUBLIC"
      and "\<forall>p \<in> set (plan_pairs s event None). skips now2 event (snd p) = skips now1 event (snd p)"
      and "distinct (map ns_dedupe_key (notification_schedules s))"
      and "\<forall>r \<in> set (notification_schedules s). row_wf r"
  shows "let s1 = fst (planNotificationsForEvent now1 eventId s);
             s2 = fst (planNotificationsForEvent now2 eventId s1)
         in keys_of s2 = keys_of s1
          \<and> distinct (map ns_dedupe_key (notification_schedules s1))
          \<and> distinct (map ns_dedupe_key (notification_schedules s2))
          \<and> (\<forall>r1 \<in> set (notification_schedules s2). \<forall>r2 \<in> set (notification_schedules s2).
                row_shape r1 = row_shape r2 \<longrightarrow> r1 = r2)"
proof -
  let ?s1 = "fst (planNotificationsForEvent now1 eventId s)"
  let ?s2 = "fst (planNotificationsForEvent now2 eventId ?s1)"
  have "{p \<in> set (plan_pairs s event None). \<not> skips now2 event (snd p)}
      = {p \<in> set (plan_pairs s event None). \<not> skips now1 event (snd p)}"
    using assms(3) by auto
  then have "plan_keys now2 event None s = plan_keys now1 event None s"
    by (simp add: plan_keys_def on_time_keys_def)
  from plan_twice_keys[OF assms(1) this] have k: "keys_of ?s2 = keys_of ?s1" .
  have d1: "distinct (map ns_dedupe_key (notification_schedules ?s1))"
    using assms(4) by (rule plan_distinct)
  then have d2: "distinct (map ns_dedupe_key (notification_schedules ?s2))"
    by (rule plan_distinct)
  have w2: "\<forall>r \<in> set (notification_schedules ?s2). row_wf r"
    using assms(5) by (intro plan_wf)
  have u: "\<forall>r1 \<in> set (notification_schedules ?s2). \<forall>r2 \<in> set (notification_schedules ?s2).
                row_shape r1 = row_shape r2 \<longrightarrow> r1 = r2"
    using one_row_per_shape[OF d2 w2] by (auto simp: row_shape_def)
  from k d1 d2 u show ?thesis by (simp add: Let_def)
qed

lemmas dispatch_defs = dispatchDueNotifications_def claim_due_def due_schedules_def claim_def
  deliver_one_def try_deliver_def hasEmail_def hasPushSubscription_def mark_success_def
  mark_failed_def markScheduleResult_def

theorem late_and_dateless_rules_are_skipped_witness:
  "ev_visibility (ex_event PUBLIC) = PUBLIC
   \<and> (7, ex_rule) \<in> set (plan_pairs (ex_db PUBLIC PROCESSING) (ex_event PUBLIC) None)
   \<and> skips 1300001 (ex_event PUBLIC) ex_rule
   \<and> snd (planForEventAndUsers 1300001 (ex_event PUBLIC) None (ex_db PUBLIC PROCESSING))
       = \<lparr>planned = 0, skipped = 1\<rparr>
   \<and> {r \<in> set (notification_schedules
                 (fst (planForEventAndUsers 1300001 (ex_event PUBLIC) None (ex_db PUBLIC PROCESSING)))).
          ns_dedupe_key r = schedule_key 7 (ex_event PUBLIC) ex_rule}
       = {ex_row PROCESSING}"
proof -
  have h1: "ev_visibility (ex_event PUBLIC) = PUBLIC" by (simp add: ex_defs)
  have h2: "plan_pairs (ex_db PUBLIC PROCESSING) (ex_event PUBLIC) None = [(7, ex_rule)]"
    by (simp add: plan_pairs_def plan_defs ex_defs)
  have h3: "skips 1300001 (ex_event PUBLIC) ex_rule"
    by (simp add: skips_def plan_defs ex_defs)
  have h4: "{r \<in> set (notification_schedules (ex_db PUBLIC PROCESSING)).
               ns_dedupe_key r = schedule_key 7 (ex_event PUBLIC) ex_rule} = {ex_row PROCESSING}"
    by (auto simp: plan_defs ex_defs)
  show ?thesis
    using h1 h2 h3 h4
      late_and_dateless_rules_are_skipped [OF h1, of 1300001 None "ex_db PUBLIC PROCESSING"]
    by simp
qed

theorem plan_twice_same_keys_witness:
  "getEvent (ex_db PUBLIC PROCESSING) 1 = Some (ex_event PUBLIC)
   \<and> ev_visibility (ex_event PUBLIC) = PUBLIC
   \<and> plan_pairs (ex_db PUBLIC PROCESSING) (ex_event PUBLIC) None = [(7, ex_rule)]
   \<and> skips 600 (ex_event PUBLIC) ex_rule = skips 500 (ex_event PUBLIC) ex_rule
   \<and> distinct (map ns_dedupe_key (notification_schedules (ex_db PUBLIC PROCESSING)))
   \<and> list_all row_wf (notification_schedules (ex_db PUBLIC PROCESSING))
   \<and> keys_of (fst (planNotificationsForEvent 500 1 (ex_db PUBLIC PROCESSING)))
       = {asc ''7:1:EMAIL:ON_START:0''}
   \<and> keys_of (fst (planNotificationsForEvent 600 1
                (fst (planNotificationsForEvent 500 1 (ex_db PUBLIC PROCESSING)))))
       = {asc ''7:1:EMAIL:ON_START:0''}"
proof -
  have h1: "getEvent (ex_db PUBLIC PROCESSING) 1 = Some (ex_event PUBLIC)"
    by (simp add: getEvent_def ex_defs)
  have h2: "ev_visibility (ex_event PUBLIC) = PUBLIC" by (simp add: ex_defs)
  have p: "plan_pairs (ex_db PUBLIC PROCESSING) (ex_event PUBLIC) None = [(7, ex_rule)]"
    by (simp add: plan_pairs_def plan_defs ex_defs)
  have q: "skips 600 (ex_event PUBLIC) ex_rule = skips 500 (ex_event PUBLIC) ex_rule"
    by (simp add: skips_def plan_defs ex_defs)
  have h3: "\<forall>p \<in> set (plan_pairs (ex_db PUBLIC PROCESSING) (ex_event PUBLIC) None).
         skips 600 (ex_event PUBLIC) (snd p) = skips 500 (ex_event PUBLIC) (snd p)"
    using p q by simp
  have h4: "distinct (map ns_dedupe_key (notification_schedules (ex_db PUBLIC PROCESSING)))"
    by (simp add: ex_defs)
  have w: "list_all row_wf (notification_schedules (ex_db PUBLIC PROCESSING))"
    by (simp add: row_wf_def plan_defs ex_defs)
  then have h5: "\<forall>r \<in> set (notification_schedules (ex_db PUBLIC PROCESSING)). row_wf r"
    by (simp add: list_all_iff)
  have h6: "keys_of (fst (planNotificationsForEvent 500 1 (ex_db PUBLIC PROCESSING)))
            = {asc ''7:1:EMAIL:ON_START:0''}"
    by (simp add: keys_of_def plan_defs ex_defs)
  show ?thesis
    using h1 h2 p q h4 w h6 plan_twice_same_keys [OF h1 h2 h3 h4 h5]
    by (simp add: Let_def)
qed

text \<open>
  Without the proviso the claim fails: the rule fires at 1000000; the first call, at
  1299999, is within five minutes of that and plans the row; the second, two milliseconds
  later, purges it and skips the rule.
\<close>

theorem plan_twice_same_keys_counterexample:
  "getEvent (ex_db PUBLIC PENDING) 1 = Some (ex_event PUBLIC)
   \<and> ev_visibility (ex_event PUBLIC) = PUBLIC
   \<and> map ns_dedupe_key (notification_schedules
        (fst (planNotificationsForEvent 1299999 1 (ex_db PUBLIC PENDING))))
       = [asc ''7:1:EMAIL:ON_START:0'']
   \<and> map ns_dedupe_key (notification_schedules
        (fst (planNotificationsForEvent 1300001 1
           (fst (planNotificationsForEvent 1299999 1 (ex_db PUBLIC PENDING))))))
       = []"
  by (simp add: plan_defs ex_defs)

lemma dispatch_without_faults_example:
  "dispatchDueNotifications 1000000 100 ([], ex_db PUBLIC PENDING)
     = (([], (ex_db PUBLIC SENT)
              \<lparr>notification_schedules := [(ex_row SENT)\<lparr>ns_updated_at := 1000000\<rparr>],
               notification_deliveries :=
                 [\<lparr>nd_schedule_id = 1, nd_sent_at_utc = 1000000, nd_result = SUCCESS,
                   nd_error_message = None, nd_response_payload = Simulated EMAIL 1000000\<rparr>]\<rparr>),
        Inr \<lparr>dr_picked = 1, dr_sent = 1, dr_failed = 0\<rparr>)
   \<and> map ns_id (due_schedules 1000000 100 (ex_db PUBLIC PENDING)) = [1]
   \<and> no_faults []"
proof -
  have h: "dispatchDueNotifications 1000000 100 ([], ex_db PUBLIC PENDING)
     = (([], (ex_db PUBLIC SENT)
              \<lparr>notification_schedules := [(ex_row SENT)\<lparr>ns_updated_at := 1000000\<rparr>],
               notification_deliveries :=
                 [\<lparr>nd_schedule_id = 1, nd_sent_at_utc = 1000000, nd_result = SUCCESS,
                   nd_error_message = None, nd_response_payload = Simulated EMAIL 1000000\<rparr>]\<rparr>),
        Inr \<lparr>dr_picked = 1, dr_sent = 1, dr_failed = 0\<rparr>)"
    by (simp add: dispatch_defs ex_defs asc_def)
  show ?thesis
    using h dispatch_settles_claimed [OF h]
    by (simp add: due_schedules_def no_faults_def ex_defs)
qed

text \<open>
  C6 at a storage fault between the two statements of \<open>markScheduleResult\<close>. One
  e-mail schedule is due and its user has an address. The claim of the due rows, the
  address lookup and the insert of the \<open>SUCCESS\<close> log row succeed; the status update
  throws; the \<open>catch\<close> block calls \<open>markScheduleResult\<close> again, which inserts a
  \<open>FAILED\<close> log row and sets the status. The call returns \<open>picked = 1\<close>,
  \<open>sent = 0\<close>, \<open>failed = 1\<close> and the schedule is \<open>FAILED\<close>, but the log holds two
  rows for the one claimed schedule, the first of them \<open>SUCCESS\<close>.
\<close>

theorem dispatch_logs_twice_on_update_fault:
  "map ns_id (due_schedules 1000000 100 (ex_db PUBLIC PENDING)) = [1]
   \<and> notification_deliveries (ex_db PUBLIC PENDING) = []
   \<and> snd (dispatchDueNotifications 1000000 100
            ([None, None, None, Some (asc ''deadlock detected'')], ex_db PUBLIC PENDING))
       = Inr \<lparr>dr_picked = 1, dr_sent = 0, dr_failed = 1\<rparr>
   \<and> map (\<lambda>r. (ns_id r, ns_status r))
          (notification_schedules (snd (fst (dispatchDueNotifications 1000000 100
            ([None, None, None, Some (asc ''deadlock detected'')], ex_db PUBLIC PENDING)))))
       = [(1, FAILED)]
   \<and> map (\<lambda>d. (nd_schedule_id d, nd_result d, nd_error_message d))
          (notification_deliveries (snd (fst (dispatchDueNotifications 1000000 100
            ([None, None, None, Some (asc ''deadlock detected'')], ex_db PUBLIC PENDING)))))
       = [(1, SUCCESS, None), (1, DELIVERY_FAILED, Some (asc ''deadlock detected''))]"
  by (simp add: dispatch_defs ex_defs asc_def)

text \<open>
  A fault one statement earlier, at the insert of the \<open>SUCCESS\<close> row, or at the address
  lookup, leaves one log row: the \<open>catch\<close> block's.
\<close>

lemma dispatch_logs_once_on_insert_fault:
  "map (\<lambda>d. (nd_schedule_id d, nd_result d, nd_error_message d))
          (notification_deliveries (snd (fst (dispatchDueNotifications 1000000 100
            ([None, None, Some (asc ''deadlock detected'')], ex_db PUBLIC PENDING)))))
       = [(1, DELIVERY_FAILED, Some (asc ''deadlock detected''))]
   \<and> map (\<lambda>d. (nd_schedule_id d, nd_result d, nd_error_message d))
          (notification_deliveries (snd (fst (dispatchDueNotifications 1000000 100
            ([None, Some (asc ''deadlock detected'')], ex_db PUBLIC PENDING)))))
       = [(1, DELIVERY_FAILED, Some (asc ''deadlock detected''))]"
  by (simp add: dispatch_defs ex_defs asc_def)

section \<open>Properties of ingest\<close>

subsection \<open>Confidence and visibility\<close>

lemma fl_0 [simp]: "fl 0 = 0" by (simp add: fl_def)

lemma sum_pickup_short: "fadd (fadd (fadd (fl (35 / 100)) (fl (25 / 100))) 0) 0 < fl (65 / 100)" by code_simp

lemma sum_update_short: "fadd (fadd (fadd (fl (35 / 100)) (fl (22 / 100))) 0) 0 < fl (65 / 100)" by code_simp

lemma sum_campaign_short: "fadd (fadd (fadd (fl (35 / 100)) (fl (2 / 10))) 0) 0 < fl (65 / 100)" by code_simp

lemma sum_event_short: "fadd (fadd (fadd (fl (35 / 100)) (fl (1 / 10))) 0) 0 < fl (65 / 100)" by code_simp

lemma sum_event_long: "fadd (fadd (fadd (fl (35 / 100)) (fl (1 / 10))) 0) (fl (1 / 10)) < fl (65 / 100)" by code_simp

lemma sum_pickup_long: "fl (65 / 100) \<le> fadd (fadd (fadd (fl (35 / 100)) (fl (25 / 100))) 0) (fl (1 / 10))" by code_simp

lemma sum_update_long: "fl (65 / 100) \<le> fadd (fadd (fadd (fl (35 / 100)) (fl (22 / 100))) 0) (fl (1 / 10))" by code_simp

lemma sum_campaign_long: "fl (65 / 100) \<le> fadd (fadd (fadd (fl (35 / 100)) (fl (2 / 10))) 0) (fl (1 / 10))" by code_simp

lemma fl_65_le_1: "fl (65 / 100) \<le> 1" by code_simp

lemma detectEventType_cases:
  "detectEventType eng text \<in> {(PICKUP, fl (25 / 100)), (MAINTENANCE, fl (25 / 100)),
      (UPDATE, fl (22 / 100)), (CAMPAIGN, fl (2 / 10)), (EVENT, fl (1 / 10))}"
  by (simp add: detectEventType_def Let_def)

text \<open>
  C1. For every title, content and timezone (and whatever the engine's case mapping),
  the draft's summary is \<open>summarize(contentText || title, 220)\<close>, its confidence is
  \<open>min(1, 0.35 + typeScore + dateRangeScore + bonus)\<close> with the bonus 0.1 when the summary
  is longer than 20 code units and 0 otherwise, the sum taken left to right in double
  arithmetic as JavaScript does, and its visibility is \<open>PUBLIC\<close> exactly when that
  confidence is at least 0.65 and \<open>NEED_REVIEW\<close> exactly when it is below.
\<close>

theorem confidence_formula:
  "let merged = title @ [10] @ contentText;
       d = parseRawNoticeToEventDraft eng title contentText timezone
   in draft_summary d = summarize (if contentText \<noteq> [] then contentText else title) 220
    \<and> draft_confidence d
        = spec_confidence (snd (detectEventType eng merged))
            (score (extractDateRange merged timezone)) (length (draft_summary d))
    \<and> (draft_visibility d = PUBLIC \<longleftrightarrow> fl (65 / 100) \<le> draft_confidence d)
    \<and> (draft_visibility d = NEED_REVIEW \<longleftrightarrow> draft_confidence d < fl (65 / 100))"
  by (auto simp: parseRawNoticeToEventDraft_def Let_def spec_confidence_def toVisibility_def
        split: prod.splits)

text \<open>
  C2, as the code has it. With no date found (date score 0) the draft is \<open>NEED_REVIEW\<close>
  when its summary has at most 20 code units, and when no keyword matched (type
  \<open>EVENT\<close>); but a keyword match with a summary longer than 20 reaches 0.65 and the draft
  is \<open>PUBLIC\<close>: the double sums are 0.7 for pickup and maintenance words,
  0.6699999999999999 for update words and 0.65 for campaign words, none below the double
  0.65.
\<close>

theorem bare_keyword_visibility:
  assumes "score (extractDateRange (title @ [10] @ contentText) timezone) = 0"
  shows "let d = parseRawNoticeToEventDraft eng title contentText timezone;
             type = fst (detectEventType eng (title @ [10] @ contentText))
         in (length (draft_summary d) \<le> 20 \<longrightarrow> draft_visibility d = NEED_REVIEW)
          \<and> (type = EVENT \<longrightarrow> draft_visibility d = NEED_REVIEW)
          \<and> (20 < length (draft_summary d) \<and> type \<noteq> EVENT \<longrightarrow> draft_visibility d = PUBLIC)"
proof -
  let ?m = "title @ [10] @ contentText"
  let ?len = "length (summarize (if contentText \<noteq> [] then contentText else title) 220)"
  obtain ty sc where det0: "detectEventType eng ?m = (ty, sc)" by (cases "detectEventType eng ?m")
  then have det: "detectEventType eng (title @ 10 # contentText) = (ty, sc)" by simp
  have vis: "draft_visibility (parseRawNoticeToEventDraft eng title contentText timezone)
        = toVisibility (min 1 (fadd (fadd (fadd (fl (35 / 100)) sc) 0)
                                 (if 20 < ?len then fl (1 / 10) else 0)))"
    and len: "length (draft_summary (parseRawNoticeToEventDraft eng title contentText timezone)) = ?len"
    using assms det by (simp_all add: parseRawNoticeToEventDraft_def Let_def)
  from detectEventType_cases[of eng ?m] det0
  consider "ty = PICKUP" "sc = fl (25 / 100)" | "ty = MAINTENANCE" "sc = fl (25 / 100)"
    | "ty = UPDATE" "sc = fl (22 / 100)" | "ty = CAMPAIGN" "sc = fl (2 / 10)"
    | "ty = EVENT" "sc = fl (1 / 10)" by auto
  then show ?thesis
  proof cases
    case 1
    then show ?thesis using sum_pickup_short sum_pickup_long fl_65_le_1
      by (auto simp: Let_def det vis len toVisibility_def min_def)
  next
    case 2
    then show ?thesis using sum_pickup_short sum_pickup_long fl_65_le_1
      by (auto simp: Let_def det vis len toVisibility_def min_def)
  next
    case 3
    then show ?thesis using sum_update_short sum_update_long fl_65_le_1
      by (auto simp: Let_def det vis len toVisibility_def min_def)
  next
    case 4
    then show ?thesis using sum_campaign_short sum_campaign_long fl_65_le_1
      by (auto simp: Let_def det vis len toVisibility_def min_def)
  next
    case 5
    then show ?thesis using sum_event_short sum_event_long fl_65_le_1
      by (auto simp: Let_def det vis len toVisibility_def min_def)
  qed
qed

subsection \<open>The leftmost date range\<close>

lemma first_isI: "first_is (x # xs) x" by (simp add: first_is_def)

lemma first_is_Cons: "first_is xs x \<Longrightarrow> \<exists>rest. xs = x # rest"
  by (cases xs) (auto simp: first_is_def)

lemma first_bind:
  "first_is xs x \<Longrightarrow> first_is (f x) y \<Longrightarrow> first_is (List.bind xs f) y"
  by (cases xs; cases "f x") (auto simp: first_is_def List.bind_def)

lemma first_single: "first_is [x] x" by (simp add: first_is_def)

lemma digit_not_space: "is_digit c \<Longrightarrow> \<not> is_space c"
  by (auto simp: is_digit_def is_space_def)

lemma rx_digits_first:
  assumes "list_all is_digit ds" "lo \<le> length ds" "length ds \<le> hi"
      and "length ds = hi \<or> rest = [] \<or> \<not> is_digit (hd rest)"
  shows "first_is (rx_digits lo hi (ds @ rest)) (ds, rest)"
proof -
  have tw: "takeWhile is_digit (take hi (ds @ rest)) = ds"
  proof (cases "length ds = hi")
    case True
    then show ?thesis using assms(1) by (simp add: list_all_iff)
  next
    case False
    with assms(3,4) have r: "rest = [] \<or> \<not> is_digit (hd rest)" and lt: "length ds < hi" by auto
    have "take hi (ds @ rest) = ds @ take (hi - length ds) rest" using assms(3) by simp
    moreover have "takeWhile is_digit (ds @ take (hi - length ds) rest) = ds"
    proof (cases rest)
      case Nil
      then show ?thesis using assms(1) by (simp add: list_all_iff)
    next
      case (Cons c cs)
      with r have "\<not> is_digit c" by simp
      moreover obtain n where "hi - length ds = Suc n" using lt by (cases "hi - length ds") auto
      ultimately show ?thesis using assms(1) Cons by (simp add: list_all_iff takeWhile_tail)
    qed
    ultimately show ?thesis by simp
  qed
  have "rx_digits lo hi (ds @ rest)
        = map (\<lambda>j. (take j (ds @ rest), drop j (ds @ rest))) (rev [lo ..< Suc (length ds)])"
    unfolding rx_digits_def Let_def tw ..
  also have "rev [lo ..< Suc (length ds)] = length ds # rev [lo ..< length ds]"
    using assms(2) by simp
  finally show ?thesis by (simp add: first_is_def)
qed

lemma rx_digits_none:
  assumes "s = [] \<or> \<not> is_digit (hd s)" "0 < lo"
  shows "rx_digits lo hi s = []"
proof -
  have "takeWhile is_digit (take hi s) = []"
    using assms(1) by (cases s; cases hi) auto
  then show ?thesis using assms(2) by (simp add: rx_digits_def)
qed

lemma rx_char_first: "P c \<Longrightarrow> first_is (rx_char P (c # r)) r"
  by (simp add: rx_char_def first_is_def)

lemma rx_spaces_first:
  assumes "list_all is_space sp" "rest = [] \<or> \<not> is_space (hd rest)"
  shows "first_is (rx_spaces (sp @ rest)) rest"
proof -
  have "takeWhile is_space (sp @ rest) = sp"
    using assms by (cases rest) (auto simp: list_all_iff takeWhile_tail)
  then show ?thesis by (simp add: rx_spaces_def first_is_def)
qed

lemma rx_spaces_first0: "s = [] \<or> \<not> is_space (hd s) \<Longrightarrow> first_is (rx_spaces s) s"
  using rx_spaces_first[of "[]" s] by simp

lemma rx_time_first:
  assumes "digit_field 1 2 h" "digit_field 2 2 mi"
  shows "first_is (rx_time (time_text h mi @ rest)) ((h, mi), rest)"
proof -
  have 1: "first_is (rx_digits 1 2 (h @ 58 # mi @ rest)) (h, 58 # mi @ rest)"
    using assms(1) by (intro rx_digits_first) (auto simp: digit_field_def is_digit_def)
  have 2: "first_is (rx_char (\<lambda>c. c = 58) (58 # mi @ rest)) (mi @ rest)"
    by (rule rx_char_first) simp
  have 3: "first_is (rx_digits 2 2 (mi @ rest)) (mi, rest)"
    using assms(2) by (intro rx_digits_first) (auto simp: digit_field_def)
  from 1 2 3 obtain a1 a2 a3 where
      "rx_digits 1 2 (h @ 58 # mi @ rest) = (h, 58 # mi @ rest) # a1"
      "rx_char (\<lambda>c. c = 58) (58 # mi @ rest) = (mi @ rest) # a2"
      "rx_digits 2 2 (mi @ rest) = (mi, rest) # a3"
    by (auto dest!: first_is_Cons)
  then show ?thesis
    by (simp add: rx_time_def time_text_def List.bind_def first_is_def)
qed

lemma digit_field_hd: "digit_field lo hi ds \<Longrightarrow> 0 < lo \<Longrightarrow> ds \<noteq> [] \<and> is_digit (hd ds)"
  by (cases ds) (auto simp: digit_field_def)

lemma rx_datetime_first:
  assumes "datetime_fields g" "is_date_sep sep1" "is_date_sep sep2"
  shows "first_is (rx_datetime (datetime_text g sep1 sep2 @ rest)) (g, rest)"
proof -
  obtain y mo d h mi where g: "g = (y, mo, d, h, mi)" by (cases g)
  from assms(1) g have f: "digit_field 4 4 y" "digit_field 1 2 mo" "digit_field 1 2 d"
      "digit_field 1 2 h" "digit_field 2 2 mi"
    by (simp_all add: datetime_fields_def)
  have nd: "\<not> is_digit sep1" "\<not> is_digit sep2" "\<not> is_digit 32"
    using assms(2,3) by (auto simp: is_date_sep_def is_digit_def)
  let ?t = "time_text h mi @ rest"
  have hne: "?t \<noteq> [] \<and> \<not> is_space (hd ?t)"
    using digit_field_hd[OF f(4)] digit_not_space by (cases h) (auto simp: time_text_def)
  have 1: "first_is (rx_digits 4 4 (y @ sep1 # mo @ sep2 # d @ 32 # ?t)) (y, sep1 # mo @ sep2 # d @ 32 # ?t)"
    using f(1) by (intro rx_digits_first) (auto simp: digit_field_def)
  have 2: "first_is (rx_char is_date_sep (sep1 # mo @ sep2 # d @ 32 # ?t)) (mo @ sep2 # d @ 32 # ?t)"
    using assms(2) by (rule rx_char_first)
  have 3: "first_is (rx_digits 1 2 (mo @ sep2 # d @ 32 # ?t)) (mo, sep2 # d @ 32 # ?t)"
    using f(2) nd by (intro rx_digits_first) (auto simp: digit_field_def)
  have 4: "first_is (rx_char is_date_sep (sep2 # d @ 32 # ?t)) (d @ 32 # ?t)"
    using assms(3) by (rule rx_char_first)
  have 5: "first_is (rx_digits 1 2 (d @ 32 # ?t)) (d, 32 # ?t)"
    using f(3) nd by (intro rx_digits_first) (auto simp: digit_field_def)
  have 6: "first_is (rx_spaces (32 # ?t)) ?t"
    using rx_spaces_first[of "[32]" ?t] hne by (simp add: is_space_def)
  have 7: "first_is (rx_time ?t) ((h, mi), rest)"
    using f(4,5) by (rule rx_time_first)
  from 1 2 3 4 5 6 7 obtain a1 a2 a3 a4 a5 a6 a7 where
      "rx_digits 4 4 (y @ sep1 # mo @ sep2 # d @ 32 # ?t) = (y, sep1 # mo @ sep2 # d @ 32 # ?t) # a1"
      "rx_char is_date_sep (sep1 # mo @ sep2 # d @ 32 # ?t) = (mo @ sep2 # d @ 32 # ?t) # a2"
      "rx_digits 1 2 (mo @ sep2 # d @ 32 # ?t) = (mo, sep2 # d @ 32 # ?t) # a3"
      "rx_char is_date_sep (sep2 # d @ 32 # ?t) = (d @ 32 # ?t) # a4"
      "rx_digits 1 2 (d @ 32 # ?t) = (d, 32 # ?t) # a5"
      "rx_spaces (32 # ?t) = ?t # a6"
      "rx_time ?t = ((h, mi), rest) # a7"
    by (auto dest!: first_is_Cons)
  then show ?thesis
    by (simp add: rx_datetime_def datetime_text_def g List.bind_def first_is_def)
qed

lemma datetime_text_hd:
  assumes "datetime_fields g"
  shows "datetime_text g s1 s2 @ rest \<noteq> [] \<and> is_digit (hd (datetime_text g s1 s2 @ rest))"
proof -
  obtain y mo d h mi where g: "g = (y, mo, d, h, mi)" by (cases g)
  with assms have "digit_field 4 4 y" by (simp add: datetime_fields_def)
  from digit_field_hd[OF this] show ?thesis by (cases y) (auto simp: g datetime_text_def)
qed

lemma fullRangePattern_first:
  assumes "datetime_fields a" "datetime_fields b" "is_date_sep dsep" "is_range_sep rsep"
  shows "first_is (fullRangePattern (range_text a b dsep rsep @ rest)) (a, b)"
proof -
  let ?b = "datetime_text b dsep dsep @ rest"
  have bh: "?b \<noteq> [] \<and> \<not> is_space (hd ?b)"
    using datetime_text_hd[OF assms(2)] digit_not_space by blast
  have rs: "\<not> is_space rsep" using assms(4) by (auto simp: is_range_sep_def is_space_def)
  have 1: "first_is (rx_datetime (datetime_text a dsep dsep @ 32 # rsep # 32 # ?b)) (a, 32 # rsep # 32 # ?b)"
    using assms(1,3) by (intro rx_datetime_first)
  have t1: "first_is (rx_spaces (32 # rsep # 32 # ?b)) (rsep # 32 # ?b)"
    using rx_spaces_first[of "[32]" "rsep # 32 # ?b"] rs by (simp add: is_space_def)
  have t2: "first_is (rx_char is_range_sep (rsep # 32 # ?b)) (32 # ?b)"
    using assms(4) by (rule rx_char_first)
  have t3: "first_is (rx_spaces (32 # ?b)) ?b"
    using rx_spaces_first[of "[32]" ?b] bh by (simp add: is_space_def)
  have 2: "first_is (rx_tilde (32 # rsep # 32 # ?b)) ?b"
    unfolding rx_tilde_def by (rule first_bind[OF t1], rule first_bind[OF t2], rule t3)
  have 3: "first_is (rx_datetime ?b) (b, rest)"
    using assms(2,3) by (intro rx_datetime_first)
  from 1 2 3 obtain a1 a2 a3 where
      "rx_datetime (datetime_text a dsep dsep @ 32 # rsep # 32 # ?b) = (a, 32 # rsep # 32 # ?b) # a1"
      "rx_tilde (32 # rsep # 32 # ?b) = ?b # a2"
      "rx_datetime ?b = (b, rest) # a3"
    by (auto dest!: first_is_Cons)
  then show ?thesis
    by (simp add: fullRangePattern_def range_text_def List.bind_def first_is_def)
qed

lemma rx_datetime_none: "s = [] \<or> \<not> is_digit (hd s) \<Longrightarrow> rx_datetime s = []"
  by (simp add: rx_datetime_def rx_digits_none)

lemma patterns_none:
  assumes "s = [] \<or> \<not> is_digit (hd s)"
  shows "fullRangePattern s = []" "sameDateRangePattern s = []" "singlePattern s = []"
  using rx_datetime_none[OF assms]
  by (simp_all add: fullRangePattern_def sameDateRangePattern_def singlePattern_def)

lemma rx_match_skip:
  assumes "\<And>s. s = [] \<or> \<not> is_digit (hd s) \<Longrightarrow> p s = []"
      and "list_all (\<lambda>c. \<not> is_digit c) pre"
  shows "rx_match p (pre @ s) = rx_match p s"
  using assms(2)
proof (induction pre)
  case Nil
  then show ?case by simp
next
  case (Cons c pre)
  then have "p (c # pre @ s) = []" by (intro assms(1)) simp
  with Cons show ?case by simp
qed

lemma rx_match_first: "first_is (p s) m \<Longrightarrow> rx_match p s = Some m"
  by (cases s; cases "p s") (auto simp: first_is_def)

lemma rx_match_no_digit:
  assumes "\<And>s. s = [] \<or> \<not> is_digit (hd s) \<Longrightarrow> p s = []"
      and "list_all (\<lambda>c. \<not> is_digit c) s"
  shows "rx_match p s = None"
proof -
  have "rx_match p (s @ []) = rx_match p []" using assms by (rule rx_match_skip)
  moreover have "p [] = []" by (rule assms(1)) simp
  ultimately show ?thesis by simp
qed

lemma set_collapse_ws: "set (collapse_ws s) \<subseteq> insert 32 (set s)"
proof (induction s rule: collapse_ws.induct)
  case 1
  then show ?case by simp
next
  case (2 c cs)
  show ?case
  proof (cases "is_space c")
    case True
    with 2 have "set (collapse_ws (dropWhile is_space cs)) \<subseteq> insert 32 (set (dropWhile is_space cs))"
      by simp
    moreover have "set (dropWhile is_space cs) \<subseteq> set cs" by (auto dest: set_dropWhileD)
    ultimately show ?thesis using True by auto
  next
    case False
    with 2 show ?thesis by auto
  qed
qed

lemma set_trim: "set (trim s) \<subseteq> set s"
  by (auto simp: trim_def dest!: set_dropWhileD)

lemma no_digit_collapse:
  "list_all (\<lambda>c. \<not> is_digit c) s \<Longrightarrow> list_all (\<lambda>c. \<not> is_digit c) (collapse_ws s)"
  using set_collapse_ws[of s] by (auto simp: list_all_iff is_digit_def)

lemma no_digit_dropWhile:
  "list_all (\<lambda>c. \<not> is_digit c) s \<Longrightarrow> list_all (\<lambda>c. \<not> is_digit c) (dropWhile P s)"
  by (auto simp: list_all_iff dest: set_dropWhileD)

lemma no_digit_normalizeText:
  "list_all (\<lambda>c. \<not> is_digit c) s \<Longrightarrow> list_all (\<lambda>c. \<not> is_digit c) (normalizeText s)"
  using set_trim[of "collapse_ws s"] no_digit_collapse[of s]
  by (auto simp: normalizeText_def list_all_iff)

lemma collapse_ws_app:
  "\<not> is_space x \<Longrightarrow> collapse_ws (pre @ x # b) = collapse_ws pre @ collapse_ws (x # b)"
proof (induction pre rule: collapse_ws.induct)
  case 1
  then show ?case by simp
next
  case (2 c cs)
  show ?case
  proof (cases "is_space c")
    case True
    have "dropWhile is_space (cs @ x # b) = dropWhile is_space cs @ x # b"
      using "2.prems" by (simp add: dropWhile_append3)
    with True 2 show ?thesis by simp
  next
    case False
    with 2 show ?thesis by simp
  qed
qed

lemma collapse_ws_nospace:
  "list_all (\<lambda>c. \<not> is_space c) a \<Longrightarrow> collapse_ws (a @ b) = a @ collapse_ws b"
  by (induction a) simp_all

lemma is_space_32: "is_space 32" by (simp add: is_space_def)

lemma collapse_ws_space:
  "s \<noteq> [] \<and> \<not> is_space (hd s) \<Longrightarrow> collapse_ws (32 # s) = 32 # collapse_ws s"
  by (cases s) (simp_all add: is_space_32)

lemma trim_around:
  assumes "m \<noteq> []" "\<not> is_space (hd m)" "\<not> is_space (last m)"
  shows "trim (pre @ m @ post) = dropWhile is_space pre @ m @ rev (dropWhile is_space (rev post))"
proof -
  obtain x m' where m: "m = x # m'" using assms(1) by (cases m) auto
  have 1: "dropWhile is_space (pre @ m @ post) = dropWhile is_space pre @ m @ post"
    using assms(2) m by (simp add: dropWhile_append3)
  obtain m0 y where my: "m = m0 @ [y]" using assms(1) by (cases m rule: rev_cases) auto
  with assms(3) have y: "\<not> is_space y" by simp
  have "rev (dropWhile is_space pre @ m @ post) = rev post @ y # rev m0 @ rev (dropWhile is_space pre)"
    by (simp add: my)
  then have 2: "dropWhile is_space (rev (dropWhile is_space pre @ m @ post))
        = dropWhile is_space (rev post) @ y # rev m0 @ rev (dropWhile is_space pre)"
    using y by (simp add: dropWhile_append3)
  show ?thesis unfolding trim_def 1 2 by (simp add: my)
qed

lemma digit_field_nospace: "digit_field lo hi ds \<Longrightarrow> list_all (\<lambda>c. \<not> is_space c) ds"
  by (auto simp: digit_field_def list_all_iff digit_not_space)

lemma datetime_text_parts: "datetime_text g sep sep = date_part g sep @ 32 # time_part g"
  by (cases g) (simp add: datetime_text_def date_part_def time_part_def)

lemma parts_nospace:
  assumes "datetime_fields g" "is_date_sep sep"
  shows "list_all (\<lambda>c. \<not> is_space c) (date_part g sep)"
    and "list_all (\<lambda>c. \<not> is_space c) (time_part g)"
    and "date_part g sep \<noteq> []" and "time_part g \<noteq> []"
    and "is_digit (hd (date_part g sep))" and "is_digit (last (time_part g))"
proof -
  obtain y mo d h mi where g: "g = (y, mo, d, h, mi)" by (cases g)
  with assms(1) have f: "digit_field 4 4 y" "digit_field 1 2 mo" "digit_field 1 2 d"
      "digit_field 1 2 h" "digit_field 2 2 mi"
    by (simp_all add: datetime_fields_def)
  have sp: "\<not> is_space sep" "\<not> is_space 58"
    using assms(2) by (auto simp: is_date_sep_def is_space_def)
  show "list_all (\<lambda>c. \<not> is_space c) (date_part g sep)"
    using f(1-3)[THEN digit_field_nospace] sp by (simp add: g date_part_def)
  show "list_all (\<lambda>c. \<not> is_space c) (time_part g)"
    using f(4,5)[THEN digit_field_nospace] sp by (simp add: g time_part_def time_text_def)
  show "date_part g sep \<noteq> []" "time_part g \<noteq> []"
    by (simp_all add: g date_part_def time_part_def time_text_def)
  show "is_digit (hd (date_part g sep))"
    using digit_field_hd[OF f(1)] by (cases y) (auto simp: g date_part_def)
  have "mi \<noteq> [] \<and> is_digit (last mi)"
    using f(5) by (cases mi rule: rev_cases) (auto simp: digit_field_def)
  then show "is_digit (last (time_part g))"
    by (simp add: g time_part_def time_text_def)
qed

lemma range_text_parts:
  "range_text a b dsep rsep
   = date_part a dsep @ 32 # time_part a @ 32 # rsep # 32 # date_part b dsep @ 32 # time_part b"
  by (simp add: range_text_def datetime_text_parts)

lemma hd_app_digit: "xs \<noteq> [] \<Longrightarrow> is_digit (hd xs) \<Longrightarrow> xs @ ys \<noteq> [] \<and> \<not> is_space (hd (xs @ ys))"
  by (cases xs) (auto simp: digit_not_space)

lemma collapse_ws_range:
  assumes "datetime_fields a" "datetime_fields b" "is_date_sep dsep" "is_range_sep rsep"
  shows "collapse_ws (range_text a b dsep rsep @ post) = range_text a b dsep rsep @ collapse_ws post"
proof -
  note pa = parts_nospace[OF assms(1,3)] and pb = parts_nospace[OF assms(2,3)]
  have rs: "\<not> is_space rsep" using assms(4) by (auto simp: is_range_sep_def is_space_def)
  have ta: "time_part a @ ys \<noteq> [] \<and> \<not> is_space (hd (time_part a @ ys))" for ys
    using pa(2,4) by (cases "time_part a") (auto simp: list_all_iff)
  have tb: "time_part b @ ys \<noteq> [] \<and> \<not> is_space (hd (time_part b @ ys))" for ys
    using pb(2,4) by (cases "time_part b") (auto simp: list_all_iff)
  have db: "date_part b dsep @ ys \<noteq> [] \<and> \<not> is_space (hd (date_part b dsep @ ys))" for ys
    using hd_app_digit[OF pb(3,5)] by simp
  have 5: "collapse_ws (time_part b @ post) = time_part b @ collapse_ws post"
    using pb(2) by (rule collapse_ws_nospace)
  have 4: "collapse_ws (date_part b dsep @ 32 # time_part b @ post)
           = date_part b dsep @ 32 # time_part b @ collapse_ws post"
    using collapse_ws_nospace[OF pb(1)] collapse_ws_space[OF tb] 5 by simp
  have 3: "collapse_ws (rsep # 32 # date_part b dsep @ 32 # time_part b @ post)
           = rsep # 32 # date_part b dsep @ 32 # time_part b @ collapse_ws post"
    using rs collapse_ws_space[OF db] 4 by simp
  have 2: "collapse_ws (time_part a @ 32 # rsep # 32 # date_part b dsep @ 32 # time_part b @ post)
           = time_part a @ 32 # rsep # 32 # date_part b dsep @ 32 # time_part b @ collapse_ws post"
    using collapse_ws_nospace[OF pa(2)] 3 rs
      collapse_ws_space[of "rsep # 32 # date_part b dsep @ 32 # time_part b @ post"] by simp
  have 1: "collapse_ws (date_part a dsep @ 32 # time_part a @ 32 # rsep # 32 # date_part b dsep @ 32 # time_part b @ post)
           = date_part a dsep @ 32 # time_part a @ 32 # rsep # 32 # date_part b dsep @ 32 # time_part b @ collapse_ws post"
    using collapse_ws_nospace[OF pa(1)] collapse_ws_space[OF ta] 2 by simp
  then show ?thesis by (simp add: range_text_parts)
qed

lemma normalizeText_range:
  assumes "datetime_fields a" "datetime_fields b" "is_date_sep dsep" "is_range_sep rsep"
  shows "normalizeText (pre @ range_text a b dsep rsep @ post)
         = dropWhile is_space (collapse_ws pre) @ range_text a b dsep rsep
           @ rev (dropWhile is_space (rev (collapse_ws post)))"
proof -
  let ?R = "range_text a b dsep rsep"
  note pa = parts_nospace[OF assms(1,3)] and pb = parts_nospace[OF assms(2,3)]
  have ne: "?R \<noteq> []" using pa(3) by (simp add: range_text_parts)
  have h: "\<not> is_space (hd ?R)"
    using pa(3,5) by (cases "date_part a dsep") (auto simp: range_text_parts digit_not_space)
  have l: "\<not> is_space (last ?R)"
    using pb(4,6) by (simp add: range_text_parts digit_not_space)
  obtain x r where R: "?R = x # r" using ne by (cases ?R) auto
  with h have x: "\<not> is_space x" by simp
  have "collapse_ws (pre @ ?R @ post) = collapse_ws pre @ collapse_ws (?R @ post)"
    using collapse_ws_app[OF x, of pre "r @ post"] R by simp
  also have "\<dots> = collapse_ws pre @ ?R @ collapse_ws post"
    using collapse_ws_range[OF assms] by simp
  finally show ?thesis
    unfolding normalizeText_def using trim_around[OF ne h l] by simp
qed

lemma timezoneOffset_known:
  "timezone \<in> set known_timezones \<Longrightarrow> timezoneOffset timezone = Some (fixed_offset timezone)"
  by (auto simp: known_timezones_def timezoneOffset_def fixed_offset_def asc_def)

lemma days_in_month_le: "days_in_month y m \<le> 31"
  by (simp add: days_in_month_def)

lemma toUtcIso_valid:
  assumes "valid_datetime g" "timezone \<in> set known_timezones"
  shows "toUtcIso g timezone = Some (utc_iso g (fixed_offset timezone))"
proof -
  obtain y mo d h mi where g: "g = (y, mo, d, h, mi)" by (cases g)
  from assms(1) g have v: "1 \<le> digits_value mo" "digits_value mo \<le> 12" "1 \<le> digits_value d"
      "digits_value d \<le> 31" "digits_value h \<le> 23" "digits_value mi \<le> 59"
    using days_in_month_le[of "digits_value y" "digits_value mo"]
    by (auto simp: valid_datetime_def)
  then show ?thesis
    by (simp add: toUtcIso_def g timezoneOffset_known[OF assms(2)] Date_parse_def utc_iso_def
          civil_ms_def)
qed

lemma extractDateRange_full:
  assumes "rx_match fullRangePattern (normalizeText text) = Some (a, b)"
  shows "extractDateRange text timezone
         = \<lparr>startAtUtc = toUtcIso a timezone, endAtUtc = toUtcIso b timezone,
            score = (if toUtcIso a timezone \<noteq> None \<and> toUtcIso b timezone \<noteq> None
                     then fl (35 / 100) else fl (15 / 100))\<rparr>"
  using assms by (simp add: extractDateRange_def Let_def)

lemma leftmost_range:
  assumes "datetime_fields a" "datetime_fields b" "is_date_sep dsep" "is_range_sep rsep"
      and "list_all (\<lambda>c. \<not> is_digit c) pre"
  shows "rx_match fullRangePattern (normalizeText (pre @ range_text a b dsep rsep @ post)) = Some (a, b)"
proof -
  let ?pre = "dropWhile is_space (collapse_ws pre)"
  let ?post = "rev (dropWhile is_space (rev (collapse_ws post)))"
  have nd: "list_all (\<lambda>c. \<not> is_digit c) ?pre"
    using assms(5) by (intro no_digit_dropWhile no_digit_collapse)
  have "rx_match fullRangePattern (?pre @ range_text a b dsep rsep @ ?post)
        = rx_match fullRangePattern (range_text a b dsep rsep @ ?post)"
    using patterns_none(1) nd by (rule rx_match_skip)
  also have "\<dots> = Some (a, b)"
    using fullRangePattern_first[OF assms(1-4)] by (rule rx_match_first)
  finally show ?thesis by (simp add: normalizeText_range[OF assms(1-4)])
qed

text \<open>
  C7, as the code has it. \<open>extractDateRange\<close> converts the leftmost match of the
  full-range pattern in the normalized text. When that match is well formed (month 1 to
  12, a day of that month, hour at most 23, minute at most 59) and the timezone is one of
  the three known ones, both endpoints are the civil times less the timezone's fixed
  offset, as ISO strings, and the score is 0.35. A text made of anything without a digit,
  then a range in the format of the claim (year, month, day, space, hour, colon, minute,
  twice, around a range separator between spaces), then anything, has that range as its
  leftmost match.
\<close>

theorem leftmost_range_converted_to_utc:
  assumes "timezone \<in> set known_timezones"
      and "valid_datetime a" and "valid_datetime b"
  shows "(rx_match fullRangePattern (normalizeText text) = Some (a, b) \<longrightarrow>
            extractDateRange text timezone
            = \<lparr>startAtUtc = Some (utc_iso a (fixed_offset timezone)),
               endAtUtc = Some (utc_iso b (fixed_offset timezone)),
               score = fl (35 / 100)\<rparr>)
       \<and> (datetime_fields a \<and> datetime_fields b \<and> is_date_sep dsep \<and> is_range_sep rsep
            \<and> list_all (\<lambda>c. \<not> is_digit c) pre \<longrightarrow>
            extractDateRange (pre @ range_text a b dsep rsep @ post) timezone
            = \<lparr>startAtUtc = Some (utc_iso a (fixed_offset timezone)),
               endAtUtc = Some (utc_iso b (fixed_offset timezone)),
               score = fl (35 / 100)\<rparr>)"
proof -
  note ua = toUtcIso_valid[OF assms(2,1)] and ub = toUtcIso_valid[OF assms(3,1)]
  have conv: "extractDateRange t timezone
            = \<lparr>startAtUtc = Some (utc_iso a (fixed_offset timezone)),
               endAtUtc = Some (utc_iso b (fixed_offset timezone)),
               score = fl (35 / 100)\<rparr>"
    if "rx_match fullRangePattern (normalizeText t) = Some (a, b)" for t
    using extractDateRange_full[OF that, of timezone] ua ub by simp
  show ?thesis
    using conv[of "text"] conv[OF leftmost_range, of dsep rsep pre post] by blast
qed

lemmas field_defs = datetime_fields_def digit_field_def is_digit_def valid_datetime_def
  digits_value_def days_in_month_def asc_def

lemma ex_start_iso: "utc_iso ex_start 540 = asc ''2026-03-01T01:00:00.000Z''" by code_simp

lemma ex_end_iso: "utc_iso ex_end 540 = asc ''2026-03-08T02:30:00.000Z''" by code_simp

lemma ex_range_text:
  "range_text ex_start ex_end 47 126 = asc ''2026/03/01 10:00 ~ 2026/03/08 11:30''"
  by (simp add: range_text_def datetime_text_def time_text_def ex_start_def ex_end_def asc_def)

theorem leftmost_range_converted_to_utc_witness:
  "asc ''Asia/Seoul'' \<in> set known_timezones
   \<and> valid_datetime ex_start \<and> valid_datetime ex_end
   \<and> datetime_fields ex_start \<and> datetime_fields ex_end
   \<and> extractDateRange (asc ''2026/03/01 10:00 ~ 2026/03/08 11:30'') (asc ''Asia/Seoul'')
       = \<lparr>startAtUtc = Some (asc ''2026-03-01T01:00:00.000Z''),
          endAtUtc = Some (asc ''2026-03-08T02:30:00.000Z''),
          score = fl (35 / 100)\<rparr>"
proof -
  have h1: "asc ''Asia/Seoul'' \<in> set known_timezones" by (simp add: known_timezones_def)
  have h2: "valid_datetime ex_start" by (simp add: ex_start_def field_defs)
  have h3: "valid_datetime ex_end" by (simp add: ex_end_def field_defs)
  have h4: "datetime_fields ex_start" by (simp add: ex_start_def field_defs)
  have h5: "datetime_fields ex_end" by (simp add: ex_end_def field_defs)
  have h6: "is_date_sep 47 \<and> is_range_sep 126 \<and> list_all (\<lambda>c. \<not> is_digit c) []"
    by (simp add: is_date_sep_def is_range_sep_def)
  have off: "fixed_offset (asc ''Asia/Seoul'') = 540" by (simp add: fixed_offset_def asc_def)
  show ?thesis
    using h1 h2 h3 h4 h5 h6
      leftmost_range_converted_to_utc [OF h1 h2 h3, of "[]" 47 126 "[]" "[]"]
    by (simp add: off ex_start_iso ex_end_iso ex_range_text)
qed

lemma ex_bad_text:
  "asc ''2026/13/01 10:00 ~ 2026/14/01 10:00 2026/03/01 10:00 ~ 2026/03/08 11:30''
   = [] @ range_text ex_bad_start ex_bad_end 47 126
     @ 32 # asc ''2026/03/01 10:00 ~ 2026/03/08 11:30''"
  by (simp add: range_text_def datetime_text_def time_text_def ex_bad_start_def ex_bad_end_def asc_def)

text \<open>
  The claim as written fails on a text that contains a well-formed range after an earlier
  match of the pattern: \<open>match\<close> returns the earlier one, whose months 13 and 14 make
  both dates invalid, and the result is two nulls with score 0.15.
\<close>

theorem first_match_counterexample:
  "str_includes (asc ''2026/13/01 10:00 ~ 2026/14/01 10:00 2026/03/01 10:00 ~ 2026/03/08 11:30'')
      (asc ''2026/03/01 10:00 ~ 2026/03/08 11:30'')
   \<and> extractDateRange
        (asc ''2026/13/01 10:00 ~ 2026/14/01 10:00 2026/03/01 10:00 ~ 2026/03/08 11:30'')
        (asc ''Asia/Seoul'')
       = \<lparr>startAtUtc = None, endAtUtc = None, score = fl (15 / 100)\<rparr>"
proof -
  have f: "datetime_fields ex_bad_start" "datetime_fields ex_bad_end"
    by (simp_all add: ex_bad_start_def ex_bad_end_def field_defs)
  have s: "is_date_sep 47" "is_range_sep 126" "list_all (\<lambda>c. \<not> is_digit c) []"
    by (simp_all add: is_date_sep_def is_range_sep_def)
  have m: "rx_match fullRangePattern (normalizeText
             (asc ''2026/13/01 10:00 ~ 2026/14/01 10:00 2026/03/01 10:00 ~ 2026/03/08 11:30''))
           = Some (ex_bad_start, ex_bad_end)"
    unfolding ex_bad_text by (rule leftmost_range[OF f s])
  have n: "toUtcIso ex_bad_start (asc ''Asia/Seoul'') = None"
          "toUtcIso ex_bad_end (asc ''Asia/Seoul'') = None"
    by (simp_all add: toUtcIso_def ex_bad_start_def ex_bad_end_def timezoneOffset_def
          Date_parse_def digits_value_def asc_def)
  have i: "str_includes (asc ''2026/13/01 10:00 ~ 2026/14/01 10:00 2026/03/01 10:00 ~ 2026/03/08 11:30'')
      (asc ''2026/03/01 10:00 ~ 2026/03/08 11:30'')"
    by (simp add: asc_def)
  show ?thesis using extractDateRange_full[OF m, of "asc ''Asia/Seoul''"] n i by simp
qed

subsection \<open>Drafts of concrete notices\<close>

lemma extractDateRange_no_digit:
  assumes "list_all (\<lambda>c. \<not> is_digit c) text"
  shows "extractDateRange text timezone = \<lparr>startAtUtc = None, endAtUtc = None, score = 0\<rparr>"
proof -
  note nd = no_digit_normalizeText[OF assms]
  have "rx_match fullRangePattern (normalizeText text) = None"
       "rx_match sameDateRangePattern (normalizeText text) = None"
       "rx_match singlePattern (normalizeText text) = None"
    using nd by (auto intro!: rx_match_no_digit patterns_none)
  then show ?thesis by (simp add: extractDateRange_def)
qed

lemmas text_defs = normalizeText_def trim_def is_space_def summarize_def asc_def

lemma ex_general_type:
  "detectEventType ex_engine
     (asc ''General Notice'' @ [10] @ asc ''This is a generic announcement without schedule info.'')
   = (EVENT, fl (1 / 10))"
  by (simp add: detectEventType_def ex_engine_def ascii_lower_def hit_def pickupKeywords_def
        maintenanceKeywords_def updateKeywords_def campaignKeywords_def asc_def)

lemma ex_general_summary:
  "summarize (asc ''This is a generic announcement without schedule info.'') 220
   = asc ''This is a generic announcement without schedule info.''"
  by (simp add: text_defs)

lemma ex_general_dates:
  "extractDateRange
     (asc ''General Notice'' @ [10] @ asc ''This is a generic announcement without schedule info.'')
     (asc ''Asia/Seoul'')
   = \<lparr>startAtUtc = None, endAtUtc = None, score = 0\<rparr>"
  by (rule extractDateRange_no_digit) (simp add: asc_def is_digit_def)

lemma ex_general_confidence:
  "spec_confidence (fl (1 / 10)) 0 53 = 4953959590107545 / 9007199254740992" by code_simp

lemma ex_general_below: "(4953959590107545 / 9007199254740992 :: rat) < fl (65 / 100)" by code_simp

text \<open>
  The third scenario of the specification: no keyword, no date, a long summary. The sum
  0.35 + 0.1 + 0 + 0.1 is the double 0.5499999999999999.
\<close>

theorem confidence_formula_witness:
  "draft_type (parseRawNoticeToEventDraft ex_engine (asc ''General Notice'')
       (asc ''This is a generic announcement without schedule info.'') (asc ''Asia/Seoul'')) = EVENT
   \<and> draft_confidence (parseRawNoticeToEventDraft ex_engine (asc ''General Notice'')
       (asc ''This is a generic announcement without schedule info.'') (asc ''Asia/Seoul''))
       = 4953959590107545 / 9007199254740992
   \<and> (4953959590107545 / 9007199254740992 :: rat) < fl (65 / 100)
   \<and> draft_visibility (parseRawNoticeToEventDraft ex_engine (asc ''General Notice'')
       (asc ''This is a generic announcement without schedule info.'') (asc ''Asia/Seoul''))
       = NEED_REVIEW"
proof -
  have t: "draft_type (parseRawNoticeToEventDraft ex_engine (asc ''General Notice'')
       (asc ''This is a generic announcement without schedule info.'') (asc ''Asia/Seoul'')) = EVENT"
    using ex_general_type by (simp add: parseRawNoticeToEventDraft_def Let_def)
  have n: "asc ''This is a generic announcement without schedule info.'' \<noteq> []"
    "length (asc ''This is a generic announcement without schedule info.'') = 53"
    by (simp_all add: asc_def)
  show ?thesis
    using t n ex_general_type ex_general_summary ex_general_dates ex_general_confidence
      ex_general_below
      confidence_formula [of "asc ''General Notice''"
        "asc ''This is a generic announcement without schedule info.''" ex_engine
        "asc ''Asia/Seoul''"]
    by (simp add: Let_def)
qed

lemma ex_pickup_type:
  "detectEventType ex_engine (asc ''Pickup'' @ [10] @ asc ''New banner is live for everyone'')
   = (PICKUP, fl (25 / 100))"
  by (simp add: detectEventType_def ex_engine_def ascii_lower_def hit_def pickupKeywords_def
        asc_def)

lemma ex_pickup_dates:
  "extractDateRange (asc ''Pickup'' @ [10] @ asc ''New banner is live for everyone'')
     (asc ''Asia/Seoul'')
   = \<lparr>startAtUtc = None, endAtUtc = None, score = 0\<rparr>"
  by (rule extractDateRange_no_digit) (simp add: asc_def is_digit_def)

lemma ex_pickup_summary:
  "summarize (asc ''New banner is live for everyone'') 220 = asc ''New banner is live for everyone''"
  by (simp add: text_defs)

lemma ex_pickup_confidence:
  "min 1 (fadd (fadd (fadd (fl (35 / 100)) (fl (25 / 100))) 0) (fl (1 / 10)))
   = (3152519739159347 / 4503599627370496 :: rat)" by code_simp

lemma ex_pickup_public: "toVisibility (3152519739159347 / 4503599627370496) = PUBLIC" by code_simp

text \<open>
  The claim as written fails: the title is a pickup keyword, there is no date, the content
  has 31 code units, and the draft is \<open>PUBLIC\<close> with confidence 0.7.
\<close>

theorem bare_keyword_counterexample:
  "fst (detectEventType ex_engine (asc ''Pickup'' @ [10] @ asc ''New banner is live for everyone''))
     = PICKUP
   \<and> score (extractDateRange (asc ''Pickup'' @ [10] @ asc ''New banner is live for everyone'')
        (asc ''Asia/Seoul'')) = 0
   \<and> draft_confidence (parseRawNoticeToEventDraft ex_engine (asc ''Pickup'')
        (asc ''New banner is live for everyone'') (asc ''Asia/Seoul''))
       = 3152519739159347 / 4503599627370496
   \<and> draft_visibility (parseRawNoticeToEventDraft ex_engine (asc ''Pickup'')
        (asc ''New banner is live for everyone'') (asc ''Asia/Seoul'')) = PUBLIC"
proof -
  have n: "asc ''New banner is live for everyone'' \<noteq> []"
    "length (asc ''New banner is live for everyone'') = 31"
    by (simp_all add: asc_def)
  have c: "draft_confidence (parseRawNoticeToEventDraft ex_engine (asc ''Pickup'')
        (asc ''New banner is live for everyone'') (asc ''Asia/Seoul''))
       = 3152519739159347 / 4503599627370496"
    using ex_pickup_type ex_pickup_dates ex_pickup_summary ex_pickup_confidence n
    by (simp add: parseRawNoticeToEventDraft_def Let_def)
  have v: "draft_visibility (parseRawNoticeToEventDraft ex_engine (asc ''Pickup'')
        (asc ''New banner is live for everyone'') (asc ''Asia/Seoul''))
       = toVisibility (draft_confidence (parseRawNoticeToEventDraft ex_engine (asc ''Pickup'')
        (asc ''New banner is live for everyone'') (asc ''Asia/Seoul'')))"
    by (simp add: parseRawNoticeToEventDraft_def Let_def split: prod.splits)
  have v': "draft_visibility (parseRawNoticeToEventDraft ex_engine (asc ''Pickup'')
        (asc ''New banner is live for everyone'') (asc ''Asia/Seoul'')) = PUBLIC"
    unfolding v c by (rule ex_pickup_public)
  have t: "fst (detectEventType ex_engine (asc ''Pickup'' @ [10] @ asc ''New banner is live for everyone''))
     = PICKUP"
    using ex_pickup_type by simp
  have d: "score (extractDateRange (asc ''Pickup'' @ [10] @ asc ''New banner is live for everyone'')
        (asc ''Asia/Seoul'')) = 0"
    using ex_pickup_dates by simp
  show ?thesis by (intro conjI t d c v')
qed

lemma ex_soon_type:
  "detectEventType ex_engine (asc ''Pickup'' @ [10] @ asc ''soon'') = (PICKUP, fl (25 / 100))"
  by (simp add: detectEventType_def ex_engine_def ascii_lower_def hit_def pickupKeywords_def
        asc_def)

lemma ex_soon_dates:
  "extractDateRange (asc ''Pickup'' @ [10] @ asc ''soon'') (asc ''Asia/Seoul'')
   = \<lparr>startAtUtc = None, endAtUtc = None, score = 0\<rparr>"
  by (rule extractDateRange_no_digit) (simp add: asc_def is_digit_def)

lemma ex_soon_summary: "summarize (asc ''soon'') 220 = asc ''soon''"
  by (simp add: text_defs)

theorem bare_keyword_visibility_witness:
  "score (extractDateRange (asc ''Pickup'' @ [10] @ asc ''soon'') (asc ''Asia/Seoul'')) = 0
   \<and> fst (detectEventType ex_engine (asc ''Pickup'' @ [10] @ asc ''soon'')) = PICKUP
   \<and> length (draft_summary (parseRawNoticeToEventDraft ex_engine (asc ''Pickup'') (asc ''soon'')
        (asc ''Asia/Seoul''))) = 4
   \<and> draft_visibility (parseRawNoticeToEventDraft ex_engine (asc ''Pickup'') (asc ''soon'')
        (asc ''Asia/Seoul'')) = NEED_REVIEW
   \<and> score (extractDateRange (asc ''Pickup'' @ [10] @ asc ''New banner is live for everyone'')
        (asc ''Asia/Seoul'')) = 0
   \<and> length (draft_summary (parseRawNoticeToEventDraft ex_engine (asc ''Pickup'')
        (asc ''New banner is live for everyone'') (asc ''Asia/Seoul''))) = 31
   \<and> draft_visibility (parseRawNoticeToEventDraft ex_engine (asc ''Pickup'')
        (asc ''New banner is live for everyone'') (asc ''Asia/Seoul'')) = PUBLIC"
proof -
  have h1: "score (extractDateRange (asc ''Pickup'' @ [10] @ asc ''soon'') (asc ''Asia/Seoul'')) = 0"
    using ex_soon_dates by simp
  have h2: "score (extractDateRange (asc ''Pickup'' @ [10] @ asc ''New banner is live for everyone'')
        (asc ''Asia/Seoul'')) = 0"
    using ex_pickup_dates by simp
  have l1: "length (draft_summary (parseRawNoticeToEventDraft ex_engine (asc ''Pickup'') (asc ''soon'')
        (asc ''Asia/Seoul''))) = 4"
    using ex_soon_summary by (simp add: parseRawNoticeToEventDraft_def Let_def asc_def split: prod.splits)
  have l2: "length (draft_summary (parseRawNoticeToEventDraft ex_engine (asc ''Pickup'')
        (asc ''New banner is live for everyone'') (asc ''Asia/Seoul''))) = 31"
    using ex_pickup_summary by (simp add: parseRawNoticeToEventDraft_def Let_def asc_def split: prod.splits)
  have t1: "fst (detectEventType ex_engine (asc ''Pickup'' @ [10] @ asc ''soon'')) = PICKUP"
    using ex_soon_type by simp
  have t2: "fst (detectEventType ex_engine (asc ''Pickup'' @ [10] @ asc ''New banner is live for everyone'')) = PICKUP"
    using ex_pickup_type by simp
  show ?thesis
    using h1 h2 l1 l2 t1 t2
      bare_keyword_visibility [OF h1, of ex_engine]
      bare_keyword_visibility [OF h2, of ex_engine]
    by (simp add: Let_def)
qed

subsection \<open>A notice whose content is unchanged\<close>





end
